theory Spec2Isabelle
  imports Main
begin

section \<open>Characters and strings as the parser sees them\<close>

text \<open>
  A Python \<open>str\<close> is a sequence of code points. The model takes a character to be a
  code point below 256 (Latin-1), so a \<open>string\<close> is a text whose code points are all
  below 256. On these, \<open>str.isspace\<close> (also the class \<open>\s\<close> of the module \<open>re\<close> and
  what \<open>str.strip\<close> removes) holds of the code points 9 to 13, 28 to 32, 133 and 160;
  the class \<open>\d\<close> holds of the ten ASCII digits; \<open>str.lower\<close> maps A to Z and the
  capital letters 192 to 222 (without the sign 215) to the code point 32 above.
\<close>

definition isspace :: "char \<Rightarrow> bool" where
  "isspace c = (let n = (of_char c :: nat) in
     (9 \<le> n \<and> n \<le> 13) \<or> (28 \<le> n \<and> n \<le> 32) \<or> n = 133 \<or> n = 160)"

definition isdigit :: "char \<Rightarrow> bool" where
  "isdigit c = (let n = (of_char c :: nat) in 48 \<le> n \<and> n \<le> 57)"

definition lower_chr :: "char \<Rightarrow> char" where
  "lower_chr c = (let n = (of_char c :: nat) in
     if (65 \<le> n \<and> n \<le> 90) \<or> (192 \<le> n \<and> n \<le> 222 \<and> n \<noteq> 215)
     then char_of (n + 32) else c)"

text \<open>
  \<open>str.upper\<close> leaves Latin-1 for three code points (181, 223, 255); the parser calls it
  only on the one letter that the class \<open>[A-D]\<close> has matched, and the matcher below asks
  only whether the result lies in a range of ASCII letters, so these three stay as they
  are here.
\<close>

definition upper_chr :: "char \<Rightarrow> char" where
  "upper_chr c = (let n = (of_char c :: nat) in
     if (97 \<le> n \<and> n \<le> 122) \<or> (224 \<le> n \<and> n \<le> 254 \<and> n \<noteq> 247)
     then char_of (n - 32) else c)"

definition lower :: "string \<Rightarrow> string" where
  "lower s = map lower_chr s"

definition upper :: "string \<Rightarrow> string" where
  "upper s = map upper_chr s"

definition startswith :: "string \<Rightarrow> string \<Rightarrow> bool" where
  "startswith s p = (take (length p) s = p)"

text \<open>The operator \<open>in\<close> on strings: \<open>contains p s\<close> is \<open>p in s\<close>.\<close>

fun contains :: "string \<Rightarrow> string \<Rightarrow> bool" where
  "contains p [] = (p = [])"
| "contains p (c # cs) = (startswith (c # cs) p \<or> contains p cs)"

definition strip :: "string \<Rightarrow> string" where
  "strip s = rev (dropWhile isspace (rev (dropWhile isspace s)))"

text \<open>\<open>s.split(sep)\<close> for a separator of one character.\<close>

fun split_chr :: "char \<Rightarrow> string \<Rightarrow> string list" where
  "split_chr sep [] = [[]]"
| "split_chr sep (c # cs) =
     (if c = sep then [] # split_chr sep cs
      else (case split_chr sep cs of [] \<Rightarrow> [[c]] | w # ws \<Rightarrow> (c # w) # ws))"

text \<open>\<open>s.replace(old, new)\<close> for a non-empty \<open>old\<close>, from left to right.\<close>

function replace :: "string \<Rightarrow> string \<Rightarrow> string \<Rightarrow> string" where
  "replace old new s =
     (if old = [] \<or> s = [] then s
      else if startswith s old then new @ replace old new (drop (length old) s)
      else hd s # replace old new (tl s))"
  by pat_completeness auto
termination
  by (relation "measure (\<lambda>(old, new, s). length s)") auto

declare replace.simps [simp del]

subsection \<open>Integers and their decimal form\<close>

datatype error = IndexError | ValueError

definition digit_val :: "char \<Rightarrow> int" where
  "digit_val c = int (of_char c) - 48"

text \<open>
  CPython bounds the number of digits in a conversion between \<open>str\<close> and \<open>int\<close>, in
  either direction (\<open>sys.int_max_str_digits\<close>); this is its default.
\<close>

definition int_max_str_digits :: nat where
  "int_max_str_digits = 4300"

text \<open>
  The value of a string of digits, and \<open>int(s)\<close>. On a non-empty string of at most
  \<open>int_max_str_digits\<close> digits \<open>int(s)\<close> is its decimal value; on a longer string of
  digits, leading zeros counted, it raises \<open>ValueError\<close>. Python accepts a few more
  strings (a sign, blanks around, underscores); the model raises \<open>ValueError\<close> on
  everything that is not a non-empty string of digits, so it raises wherever Python does.
\<close>

definition decimal :: "string \<Rightarrow> int" where
  "decimal s = foldl (\<lambda>acc c. 10 * acc + digit_val c) 0 s"

definition py_int :: "string \<Rightarrow> error + int" where
  "py_int s = (if s \<noteq> [] \<and> list_all isdigit s \<and> length s \<le> int_max_str_digits
               then Inr (decimal s) else Inl ValueError)"

function str_of_nat :: "nat \<Rightarrow> string" where
  "str_of_nat n = (if n < 10 then [char_of (48 + n)]
                   else str_of_nat (n div 10) @ [char_of (48 + n mod 10)])"
  by pat_completeness auto
termination
  by (relation "measure id") auto

declare str_of_nat.simps [simp del]

text \<open>The decimal text of an integer.\<close>

definition str_of_int :: "int \<Rightarrow> string" where
  "str_of_int i = (if i < 0 then CHR ''-'' # str_of_nat (nat (- i)) else str_of_nat (nat i))"

text \<open>
  An integer inside an f-string: its decimal text, or \<open>ValueError\<close> when it has more
  than \<open>int_max_str_digits\<close> digits.
\<close>

definition format_int :: "int \<Rightarrow> error + string" where
  "format_int i = (if int_max_str_digits < length (str_of_nat (nat \<bar>i\<bar>)) then Inl ValueError
                   else Inr (str_of_int i))"

text \<open>\<open>xs[i]\<close> for a non-negative index: out of range it raises.\<close>

definition getitem :: "'a list \<Rightarrow> nat \<Rightarrow> error + 'a" where
  "getitem xs i = (if i < length xs then Inr (xs ! i) else Inl IndexError)"

section \<open>Regular expressions\<close>

text \<open>
  The patterns of the program use literals, the classes \<open>\d\<close>, \<open>\s\<close>, \<open>.\<close> and
  \<open>[A-D]\<close>, sequence, alternation, the greedy repetitions \<open>*\<close>, \<open>+\<close> and \<open>?\<close>,
  groups, a lookahead and the anchors \<open>^\<close> and \<open>$\<close>. A matcher state is the position
  reached, the text that is left and the groups captured so far. \<open>ms r st\<close> lists, in the
  order in which a backtracking matcher tries them, the states in which \<open>r\<close> can end when
  started in \<open>st\<close>; the head of the list is the match that \<open>re\<close> reports.
\<close>

datatype cls = Digit | Space | AnyChar | Range char char

datatype re = Eps | Lit char | Cls cls | Seq re re | Alt re re | Star re
  | Group nat re | Look re | Bol | Eol

type_synonym mstate = "nat \<times> string \<times> (nat \<rightharpoonup> string)"

definition in_range :: "char \<Rightarrow> char \<Rightarrow> char \<Rightarrow> bool" where
  "in_range lo hi c = ((of_char lo :: nat) \<le> of_char c \<and> (of_char c :: nat) \<le> of_char hi)"

text \<open>With \<open>IGNORECASE\<close> (the flag \<open>ic\<close>) a range also takes a character whose other case is in it.\<close>

fun in_cls :: "bool \<Rightarrow> cls \<Rightarrow> char \<Rightarrow> bool" where
  "in_cls ic Digit c = isdigit c"
| "in_cls ic Space c = isspace c"
| "in_cls ic AnyChar c = (c \<noteq> CHR 0x0A)"
| "in_cls ic (Range lo hi) c =
     (in_range lo hi c \<or> (ic \<and> (in_range lo hi (lower_chr c) \<or> in_range lo hi (upper_chr c))))"

definition lit_eq :: "bool \<Rightarrow> char \<Rightarrow> char \<Rightarrow> bool" where
  "lit_eq ic c x = (if ic then lower_chr x = lower_chr c else x = c)"

function ms :: "bool \<Rightarrow> re \<Rightarrow> mstate \<Rightarrow> mstate list" where
  "ms ic Eps st = [st]"
| "ms ic (Lit c) (p, s, g) =
     (case s of [] \<Rightarrow> [] | x # xs \<Rightarrow> if lit_eq ic c x then [(Suc p, xs, g)] else [])"
| "ms ic (Cls k) (p, s, g) =
     (case s of [] \<Rightarrow> [] | x # xs \<Rightarrow> if in_cls ic k x then [(Suc p, xs, g)] else [])"
| "ms ic (Seq a b) st = concat (map (ms ic b) (ms ic a st))"
| "ms ic (Alt a b) st = ms ic a st @ ms ic b st"
| "ms ic (Star a) (p, s, g) =
     concat (map (\<lambda>st'. if length (fst (snd st')) < length s then ms ic (Star a) st' else [])
                 (ms ic a (p, s, g))) @ [(p, s, g)]"
| "ms ic (Group n a) (p, s, g) =
     map (\<lambda>(p', s', g'). (p', s', g'(n \<mapsto> take (p' - p) s))) (ms ic a (p, s, g))"
| "ms ic (Look a) st = (case ms ic a st of [] \<Rightarrow> [] | _ # _ \<Rightarrow> [st])"
| "ms ic Bol (p, s, g) = (if p = 0 then [(p, s, g)] else [])"
| "ms ic Eol (p, s, g) = (if s = [] \<or> s = [CHR 0x0A] then [(p, s, g)] else [])"
  by pat_completeness auto
termination
  by (relation "inv_image (measure size <*lex*> measure length) (\<lambda>(ic, r, st). (r, fst (snd st)))")
     auto

definition Plus :: "re \<Rightarrow> re" where
  "Plus r = Seq r (Star r)"

definition Opt :: "re \<Rightarrow> re" where
  "Opt r = Alt r Eps"

text \<open>A run of literal characters.\<close>

fun Lits :: "string \<Rightarrow> re" where
  "Lits [] = Eps"
| "Lits (c # cs) = Seq (Lit c) (Lits cs)"

text \<open>The numbers of the groups of a pattern.\<close>

primrec groups :: "re \<Rightarrow> nat set" where
  "groups Eps = {}"
| "groups (Lit c) = {}"
| "groups (Cls k) = {}"
| "groups (Seq a b) = groups a \<union> groups b"
| "groups (Alt a b) = groups a \<union> groups b"
| "groups (Star a) = groups a"
| "groups (Group n a) = insert n (groups a)"
| "groups (Look a) = groups a"
| "groups Bol = {}"
| "groups Eol = {}"

text \<open>\<open>advances st st'\<close>: the state \<open>st'\<close> is \<open>st\<close> moved forward over some characters.\<close>

definition advances :: "mstate \<Rightarrow> mstate \<Rightarrow> bool" where
  "advances st st' =
     (\<exists>k. k \<le> length (fst (snd st)) \<and> fst st' = fst st + k \<and> fst (snd st') = drop k (fst (snd st)))"

text \<open>
  A match object is the final state. Every group of the patterns below lies on every
  path through its pattern, so a match always sets it (the lemmas on the groups of the
  patterns, further down, prove it); \<open>group\<close> gives the empty string for a group that
  is not set.
\<close>

definition group :: "mstate \<Rightarrow> nat \<Rightarrow> string" where
  "group m n = (case snd (snd m) n of None \<Rightarrow> [] | Some x \<Rightarrow> x)"

text \<open>The truth value of what \<open>re.match\<close> returns: a match object is true, \<open>None\<close> is false.\<close>

definition truthy :: "'a option \<Rightarrow> bool" where
  "truthy m = (case m of None \<Rightarrow> False | Some x \<Rightarrow> True)"

text \<open>\<open>re.match\<close> tries the pattern at the start of the text only.\<close>

definition re_match :: "bool \<Rightarrow> re \<Rightarrow> string \<Rightarrow> mstate option" where
  "re_match ic r s = (case ms ic r (0, s, Map.empty) of [] \<Rightarrow> None | m # _ \<Rightarrow> Some m)"

text \<open>\<open>re.search\<close> tries every start from left to right, the end of the text included.\<close>

fun search_from :: "bool \<Rightarrow> re \<Rightarrow> nat \<Rightarrow> string \<Rightarrow> mstate option" where
  "search_from ic r pos [] =
     (case ms ic r (pos, [], Map.empty) of [] \<Rightarrow> None | m # _ \<Rightarrow> Some m)"
| "search_from ic r pos (c # cs) =
     (case ms ic r (pos, c # cs, Map.empty) of
        [] \<Rightarrow> search_from ic r (Suc pos) cs
      | m # _ \<Rightarrow> Some m)"

definition re_search :: "bool \<Rightarrow> re \<Rightarrow> string \<Rightarrow> mstate option" where
  "re_search ic r s = search_from ic r 0 s"

text \<open>
  \<open>re.split\<close> for a pattern without groups: \<open>cur\<close> is the piece being collected since the
  last separator. A match that consumes nothing still splits; the scan then moves on by
  one character.
\<close>

function split_from :: "bool \<Rightarrow> re \<Rightarrow> nat \<Rightarrow> string \<Rightarrow> string \<Rightarrow> string list" where
  "split_from ic r pos cur s =
     (case ms ic r (pos, s, Map.empty) of
        [] \<Rightarrow> (case s of [] \<Rightarrow> [cur] | c # cs \<Rightarrow> split_from ic r (Suc pos) (cur @ [c]) cs)
      | m # _ \<Rightarrow>
          if length (fst (snd m)) < length s then cur # split_from ic r (fst m) [] (fst (snd m))
          else cur # (case s of [] \<Rightarrow> [[]] | c # cs \<Rightarrow> split_from ic r (Suc pos) [c] cs))"
  by pat_completeness auto
termination
  by (relation "measure (\<lambda>(ic, r, pos, cur, s). length s)") auto

declare split_from.simps [simp del]

definition re_split :: "bool \<Rightarrow> re \<Rightarrow> string \<Rightarrow> string list" where
  "re_split ic r s = split_from ic r 0 [] s"

text \<open>\<open>re.sub\<close> with a constant replacement, every match replaced.\<close>

function sub_from :: "bool \<Rightarrow> re \<Rightarrow> string \<Rightarrow> nat \<Rightarrow> string \<Rightarrow> string" where
  "sub_from ic r repl pos s =
     (case ms ic r (pos, s, Map.empty) of
        [] \<Rightarrow> (case s of [] \<Rightarrow> [] | c # cs \<Rightarrow> c # sub_from ic r repl (Suc pos) cs)
      | m # _ \<Rightarrow>
          if length (fst (snd m)) < length s then repl @ sub_from ic r repl (fst m) (fst (snd m))
          else repl @ (case s of [] \<Rightarrow> [] | c # cs \<Rightarrow> c # sub_from ic r repl (Suc pos) cs))"
  by pat_completeness auto
termination
  by (relation "measure (\<lambda>(ic, r, repl, pos, s). length s)") auto

declare sub_from.simps [simp del]

definition re_sub :: "bool \<Rightarrow> re \<Rightarrow> string \<Rightarrow> string \<Rightarrow> string" where
  "re_sub ic r repl s = sub_from ic r repl 0 s"

section \<open>The patterns of the program\<close>

fun Seqs :: "re list \<Rightarrow> re" where
  "Seqs [] = Eps"
| "Seqs (r # rs) = Seq r (Seqs rs)"

text \<open>\<^verbatim>\<open>(?:md|mod)\s*0?(\d+)\<close>, searched with \<open>IGNORECASE\<close>.\<close>

definition module_re :: re where
  "module_re = Seqs [Alt (Lits ''md'') (Lits ''mod''), Star (Cls Space), Opt (Lit CHR ''0''),
                     Group 1 (Plus (Cls Digit))]"

text \<open>\<^verbatim>\<open>\n\s*\n(?=Q\d+\.)\<close>, the separator of blocks, without flags.\<close>

definition split_re :: re where
  "split_re = Seqs [Lit CHR 0x0A, Star (Cls Space), Lit CHR 0x0A,
                    Look (Seqs [Lit CHR ''Q'', Plus (Cls Digit), Lit CHR ''.''])]"

text \<open>\<^verbatim>\<open>^Q(\d+)\.\s*(.*)$\<close>, with \<open>IGNORECASE\<close>.\<close>

definition question_re :: re where
  "question_re = Seqs [Bol, Lit CHR ''Q'', Group 1 (Plus (Cls Digit)), Lit CHR ''.'',
                       Star (Cls Space), Group 2 (Star (Cls AnyChar)), Eol]"

text \<open>\<^verbatim>\<open>^[A-D]\.\<close>, with \<open>IGNORECASE\<close>.\<close>

definition option_start_re :: re where
  "option_start_re = Seqs [Bol, Cls (Range CHR ''A'' CHR ''D''), Lit CHR ''.'']"

text \<open>\<^verbatim>\<open>^([A-D])\.\s*(.*)$\<close>, with \<open>IGNORECASE\<close>.\<close>

definition option_re :: re where
  "option_re = Seqs [Bol, Group 1 (Cls (Range CHR ''A'' CHR ''D'')), Lit CHR ''.'',
                     Star (Cls Space), Group 2 (Star (Cls AnyChar)), Eol]"

text \<open>\<^verbatim>\<open>^answer:\s*([A-D])\<close>, with \<open>IGNORECASE\<close>.\<close>

definition answer_re :: re where
  "answer_re = Seqs [Bol, Lits ''answer:'', Star (Cls Space),
                     Group 1 (Cls (Range CHR ''A'' CHR ''D''))]"

text \<open>\<^verbatim>\<open>^explanation:\s*\<close>, with \<open>IGNORECASE\<close>.\<close>

definition explanation_re :: re where
  "explanation_re = Seqs [Bol, Lits ''explanation:'', Star (Cls Space)]"

text \<open>The part of the module pattern after the blanks: \<^verbatim>\<open>0?(\d+)\<close>.\<close>

definition after_keyword :: re where
  "after_keyword = Seqs [Opt (Lit CHR ''0''), Group 1 (Plus (Cls Digit))]"

section \<open>The records that the parser builds\<close>

record answer_option =
  "text" :: string
  isCorrect :: bool
  rationale :: string

text \<open>The key \<open>questionNumber\<close> is in the dictionary only when the first line carries a number.\<close>

record question_record =
  question :: string
  hint :: string
  answerOptions :: "answer_option list"
  source :: string
  "module" :: string
  difficulty :: string
  questionNumber :: "int option"

section \<open>Sequencing of steps that may raise\<close>

definition ebind :: "error + 'a \<Rightarrow> ('a \<Rightarrow> error + 'b) \<Rightarrow> error + 'b" where
  "ebind m f = (case m of Inl e \<Rightarrow> Inl e | Inr x \<Rightarrow> f x)"

lemma ebind_cong [fundef_cong]:
  "m = m' \<Longrightarrow> (\<And>x. m' = Inr x \<Longrightarrow> f x = f' x) \<Longrightarrow> ebind m f = ebind m' f'"
  by (cases m') (simp_all add: ebind_def)

lemma ebind_Inr [simp]: "ebind (Inr x) f = f x"
  by (simp add: ebind_def)

lemma ebind_Inl [simp]: "ebind (Inl e) f = Inl e"
  by (simp add: ebind_def)

section \<open>The metadata tagger\<close>

definition extract_module :: "string \<Rightarrow> error + string" where
  "extract_module source_name =
     (case re_search True module_re source_name of
        Some m \<Rightarrow> ebind (py_int (group m 1)) (\<lambda>num.
                    ebind (format_int num) (\<lambda>s. Inr (''MD'' @ s)))
      | None \<Rightarrow> Inr ''Other'')"

definition extract_difficulty :: "string \<Rightarrow> string" where
  "extract_difficulty source_name =
     (let lower' = lower source_name in
      if contains ''hard'' lower' then ''Hard''
      else if contains ''medium'' lower' \<or> contains ''med '' lower' \<or> contains '' tb med'' lower'
        then ''Medium''
      else if contains ''easy'' lower' then ''Easy''
      else ''Unknown'')"

text \<open>
  The rule for the module in the words of the specification. The pattern is found at a
  place of the label when \<open>md\<close> or \<open>mod\<close>, in any case of the letters, stands there,
  then blanks or none, then at least one digit; a leading zero is one of the digits.
  \<open>find_pattern\<close> gives the digits at the leftmost place where the pattern is found;
  the module is \<open>MD\<close> with the value of the digits, which leading zeros do not change,
  or \<open>Other\<close> when the pattern is found nowhere.
\<close>

definition digits_after :: "string \<Rightarrow> string" where
  "digits_after u = takeWhile isdigit (dropWhile isspace u)"

text \<open>
  Of a run of digits, the part that the group of the pattern holds: the pattern gives a
  first zero to its optional \<open>0\<close> when a digit follows it.
\<close>

definition captured :: "string \<Rightarrow> string" where
  "captured ds = (if 2 \<le> length ds \<and> hd ds = CHR ''0'' then tl ds else ds)"

definition keyword_at :: "string \<Rightarrow> string option" where
  "keyword_at s =
     (if 2 \<le> length s \<and> lower (take 2 s) = ''md'' then Some (drop 2 s)
      else if 3 \<le> length s \<and> lower (take 3 s) = ''mod'' then Some (drop 3 s)
      else None)"

definition pattern_at :: "string \<Rightarrow> string option" where
  "pattern_at s =
     (case keyword_at s of
        None \<Rightarrow> None
      | Some u \<Rightarrow> if digits_after u = [] then None else Some (digits_after u))"

fun find_pattern :: "string \<Rightarrow> string option" where
  "find_pattern [] = None"
| "find_pattern (c # cs) =
     (case pattern_at (c # cs) of Some d \<Rightarrow> Some d | None \<Rightarrow> find_pattern cs)"

definition module_spec :: "string \<Rightarrow> string" where
  "module_spec label =
     (case find_pattern label of Some d \<Rightarrow> ''MD'' @ str_of_int (decimal d) | None \<Rightarrow> ''Other'')"

text \<open>
  The rule for the difficulty in the words of the specification: \<open>hard\<close>, else \<open>medium\<close>
  or \<open>med\<close> with a blank after it, else \<open>easy\<close>, else unknown.
\<close>

definition difficulty_spec :: "string \<Rightarrow> string" where
  "difficulty_spec label =
     (if contains ''hard'' (lower label) then ''Hard''
      else if contains ''medium'' (lower label) \<or> contains ''med '' (lower label) then ''Medium''
      else if contains ''easy'' (lower label) then ''Easy''
      else ''Unknown'')"

section \<open>The parser of one block\<close>

text \<open>The stripped, non-empty lines of a block.\<close>

definition block_lines :: "string \<Rightarrow> string list" where
  "block_lines block = map strip (filter (\<lambda>l. strip l \<noteq> []) (split_chr (CHR 0x0A) block))"

text \<open>The first line: the number, when it has one, and the start of the question.\<close>

definition question_line :: "string \<Rightarrow> error + (int option \<times> string)" where
  "question_line q_line =
     (case re_match True question_re q_line of
        Some m \<Rightarrow> ebind (py_int (group m 1)) (\<lambda>qnum. Inr (Some qnum, group m 2))
      | None \<Rightarrow> Inr (None, q_line))"

text \<open>The test of the loop that collects the wrapped lines of the question.\<close>

definition question_cond :: "string list \<Rightarrow> nat \<Rightarrow> error + bool" where
  "question_cond lines idx =
     (if \<not> idx < length lines then Inr False
      else ebind (getitem lines idx) (\<lambda>l.
        if truthy (re_match True option_start_re l) then Inr False
        else ebind (getitem lines idx) (\<lambda>l'. Inr (\<not> startswith (lower l') ''answer:''))))"

function question_loop :: "string list \<Rightarrow> nat \<Rightarrow> string \<Rightarrow> error + (nat \<times> string)" where
  "question_loop lines idx question_text =
     ebind (question_cond lines idx) (\<lambda>go.
       if go then ebind (getitem lines idx) (\<lambda>l.
                    question_loop lines (idx + 1) (question_text @ '' '' @ l))
       else Inr (idx, question_text))"
  by pat_completeness auto
termination
  by (relation "measure (\<lambda>(lines, idx, question_text). length lines - idx)")
     (auto simp: getitem_def split: if_splits)

declare question_loop.simps [simp del]

text \<open>The test of the outer loop over the options.\<close>

definition options_cond :: "string list \<Rightarrow> nat \<Rightarrow> error + bool" where
  "options_cond lines idx =
     (if \<not> idx < length lines then Inr False
      else ebind (getitem lines idx) (\<lambda>l. Inr (truthy (re_match True option_start_re l))))"

text \<open>The test of the inner loop that collects the wrapped lines of one option.\<close>

definition wrap_cond :: "string list \<Rightarrow> nat \<Rightarrow> error + bool" where
  "wrap_cond lines idx =
     (if \<not> idx < length lines then Inr False
      else ebind (getitem lines idx) (\<lambda>l.
        if truthy (re_match True option_start_re l) then Inr False
        else ebind (getitem lines idx) (\<lambda>l'.
          if startswith (lower l') ''answer:'' then Inr False
          else ebind (getitem lines idx) (\<lambda>l''.
            Inr (\<not> startswith (lower l'') ''explanation:'')))))"

function wrap_loop :: "string list \<Rightarrow> nat \<Rightarrow> string \<Rightarrow> error + (nat \<times> string)" where
  "wrap_loop lines idx text_part =
     ebind (wrap_cond lines idx) (\<lambda>go.
       if go then ebind (getitem lines idx) (\<lambda>l.
                    wrap_loop lines (idx + 1) (text_part @ '' '' @ l))
       else Inr (idx, text_part))"
  by pat_completeness auto
termination
  by (relation "measure (\<lambda>(lines, idx, text_part). length lines - idx)")
     (auto simp: getitem_def split: if_splits)

declare wrap_loop.simps [simp del]

lemma wrap_loop_idx: "wrap_loop lines idx text_part = Inr (idx', t) \<Longrightarrow> idx \<le> idx'"
proof (induction lines idx text_part rule: wrap_loop.induct)
  case (1 lines idx text_part)
  show ?case
  proof (cases "wrap_cond lines idx")
    case (Inl e)
    with "1.prems" show ?thesis
      by (subst (asm) wrap_loop.simps) simp
  next
    case (Inr go)
    show ?thesis
    proof (cases go)
      case False
      with Inr "1.prems" show ?thesis
        by (subst (asm) wrap_loop.simps) simp
    next
      case True
      show ?thesis
      proof (cases "getitem lines idx")
        case (Inl e)
        with Inr True "1.prems" show ?thesis
          by (subst (asm) wrap_loop.simps) simp
      next
        case l: (Inr l)
        from Inr True l "1.prems"
        have "wrap_loop lines (idx + 1) (text_part @ '' '' @ l) = Inr (idx', t)"
          by (subst (asm) wrap_loop.simps) simp
        from "1.IH" [OF Inr True l this] show ?thesis
          by simp
      qed
    qed
  qed
qed

text \<open>
  An option is the pair of its letter and its text. The line that starts an option is
  matched a second time for its parts; a line on which that fails is passed over.
\<close>

function options_loop ::
  "string list \<Rightarrow> nat \<Rightarrow> (string \<times> string) list \<Rightarrow> error + (nat \<times> (string \<times> string) list)"
where
  "options_loop lines idx options =
     ebind (options_cond lines idx) (\<lambda>go.
       if go then
         ebind (getitem lines idx) (\<lambda>line.
           (case re_match True option_re line of
              None \<Rightarrow> options_loop lines (idx + 1) options
            | Some m \<Rightarrow>
                ebind (wrap_loop lines (idx + 1) (group m 2)) (\<lambda>(idx', text_part).
                  options_loop lines idx' (options @ [(upper (group m 1), text_part)]))))
       else Inr (idx, options))"
  by pat_completeness auto
termination
proof (relation "measure (\<lambda>(lines, idx, options). length lines - idx)", goal_cases)
  case 1
  show ?case by simp
next
  case (2 lines idx options go line)
  then show ?case
    by (auto simp: getitem_def split: if_splits)
next
  case (3 lines idx options go line m res idx' text_part)
  then have "idx < length lines"
    by (auto simp: getitem_def split: if_splits)
  moreover from 3 have "idx + 1 \<le> idx'"
    using wrap_loop_idx [of lines "idx + 1" "group m 2" idx' text_part] by simp
  ultimately show ?case
    by simp
qed

declare options_loop.simps [simp del]

text \<open>
  The scan for the answer line runs over the indices from \<open>idx\<close> to the end of the lines
  and stops at the first match; without a match \<open>idx\<close> stays as it was.
\<close>

fun answer_loop :: "string list \<Rightarrow> nat \<Rightarrow> nat list \<Rightarrow> error + (string option \<times> nat)" where
  "answer_loop lines idx [] = Inr (None, idx)"
| "answer_loop lines idx (i # rest) =
     ebind (getitem lines i) (\<lambda>l.
       (case re_match True answer_re l of
          Some m \<Rightarrow> Inr (Some (upper (group m 1)), i + 1)
        | None \<Rightarrow> answer_loop lines idx rest))"

text \<open>The scan for the explanation carries the text and the flag that it has started.\<close>

fun explanation_loop :: "string list \<Rightarrow> nat list \<Rightarrow> string \<times> bool \<Rightarrow> error + (string \<times> bool)"
where
  "explanation_loop lines [] st = Inr st"
| "explanation_loop lines (i # rest) (explanation, explanation_started) =
     ebind (getitem lines i) (\<lambda>line.
       if startswith (lower line) ''explanation:''
       then explanation_loop lines rest (re_sub True explanation_re [] line, True)
       else if explanation_started
       then explanation_loop lines rest (explanation @ '' '' @ line, explanation_started)
       else explanation_loop lines rest (explanation, explanation_started))"

text \<open>What the scan of the lines of one block has found when it reaches the test for a malformed block.\<close>

record scanned =
  qnum :: "int option"
  question_text :: string
  options :: "(string \<times> string) list"
  answer_letter :: "string option"
  explanation :: string

definition scan_lines :: "string list \<Rightarrow> error + scanned" where
  "scan_lines lines =
     ebind (getitem lines 0) (\<lambda>q_line.
     ebind (question_line q_line) (\<lambda>(qnum', question_text').
     ebind (question_loop lines 1 question_text') (\<lambda>(idx, question_text'').
     ebind (options_loop lines idx []) (\<lambda>(idx', options').
     ebind (answer_loop lines idx' [idx'..<length lines]) (\<lambda>(answer_letter', idx'').
     ebind (explanation_loop lines [idx''..<length lines] ([], False)) (\<lambda>(explanation', started).
       Inr \<lparr>qnum = qnum', question_text = question_text'', options = options',
            answer_letter = answer_letter', explanation = explanation'\<rparr>))))))"

text \<open>\<open>not answer_letter\<close> holds of \<open>None\<close> and of the empty string.\<close>

definition malformed :: "scanned \<Rightarrow> bool" where
  "malformed sc = (options sc = [] \<or> answer_letter sc = None \<or> answer_letter sc = Some [])"

definition answer_options :: "scanned \<Rightarrow> answer_option list" where
  "answer_options sc =
     map (\<lambda>opt. \<lparr>text = snd opt, isCorrect = (Some (fst opt) = answer_letter sc),
                 rationale = explanation sc\<rparr>) (options sc)"

definition q_obj :: "scanned \<Rightarrow> string \<Rightarrow> string \<Rightarrow> string \<Rightarrow> question_record" where
  "q_obj sc source_name module' difficulty' =
     \<lparr>question = question_text sc, hint = [], answerOptions = answer_options sc,
      source = source_name, module = module', difficulty = difficulty',
      questionNumber = qnum sc\<rparr>"

text \<open>One turn of the loop over the blocks: the record to append, if the block gives one.\<close>

definition parse_block ::
  "string \<Rightarrow> string \<Rightarrow> string \<Rightarrow> string \<Rightarrow> error + question_record option" where
  "parse_block block source_name module' difficulty' =
     (let lines = block_lines block in
      if lines = [] then Inr None
      else ebind (scan_lines lines) (\<lambda>sc.
        if malformed sc then Inr None
        else Inr (Some (q_obj sc source_name module' difficulty'))))"

text \<open>
  The explanation in the words of the specification: from the first line that starts with
  \<open>explanation:\<close>, that line without its tag, joined by blanks with all the lines after
  it; empty when there is no such line.
\<close>

fun explanation_spec :: "string list \<Rightarrow> string" where
  "explanation_spec [] = []"
| "explanation_spec (l # ls) =
     (if startswith (lower l) ''explanation:''
      then re_sub True explanation_re [] l @ concat (map (\<lambda>x. '' '' @ x) ls)
      else explanation_spec ls)"

section \<open>The parser of a whole text\<close>

fun blocks_loop ::
  "string list \<Rightarrow> string \<Rightarrow> string \<Rightarrow> string \<Rightarrow> question_record list
   \<Rightarrow> error + question_record list" where
  "blocks_loop [] source_name module' difficulty' questions = Inr questions"
| "blocks_loop (block # blocks) source_name module' difficulty' questions =
     ebind (parse_block block source_name module' difficulty') (\<lambda>r.
       (case r of
          None \<Rightarrow> blocks_loop blocks source_name module' difficulty' questions
        | Some q \<Rightarrow> blocks_loop blocks source_name module' difficulty' (questions @ [q])))"

definition split_blocks :: "string \<Rightarrow> string list" where
  "split_blocks text' = re_split False split_re text'"

definition parse_quiz_text :: "string \<Rightarrow> string \<Rightarrow> error + question_record list" where
  "parse_quiz_text text' source_name =
     ebind (extract_module source_name) (\<lambda>module'.
       (let difficulty' = extract_difficulty source_name;
            text'' = strip (replace [CHR 0x0D, CHR 0x0A] [CHR 0x0A] text')
        in if text'' = [] then Inr []
           else blocks_loop (split_blocks text'') source_name module' difficulty' []))"

text \<open>
  The numbers that the parser converts with \<open>int\<close> are within the bound of the
  interpreter: the number of a question line, if the line has one; the first line of a
  block, if the block has lines; the digits that the module pattern captures in the
  label, with the first lines of all blocks of the text.
\<close>

definition short_number :: "string \<Rightarrow> bool" where
  "short_number l =
     (case re_match True question_re l of
        None \<Rightarrow> True
      | Some m \<Rightarrow> length (group m 1) \<le> int_max_str_digits)"

definition block_ok :: "string \<Rightarrow> bool" where
  "block_ok block = (case block_lines block of [] \<Rightarrow> True | l # ls \<Rightarrow> short_number l)"

definition label_ok :: "string \<Rightarrow> bool" where
  "label_ok label =
     (case find_pattern label of
        None \<Rightarrow> True
      | Some ds \<Rightarrow> length (captured ds) \<le> int_max_str_digits)"

definition numbers_short :: "string \<Rightarrow> string \<Rightarrow> bool" where
  "numbers_short text' source_name =
     (label_ok source_name \<and>
      list_all block_ok (split_blocks (strip (replace [CHR 0x0D, CHR 0x0A] [CHR 0x0A] text'))))"

text \<open>A line that the inner loop of the options appends to the text of the option at hand.\<close>

definition continues :: "string \<Rightarrow> bool" where
  "continues x = (\<not> truthy (re_match True option_start_re x)
                  \<and> \<not> startswith (lower x) ''answer:''
                  \<and> \<not> startswith (lower x) ''explanation:'')"

text \<open>What one block adds to the list of records.\<close>

definition emitted :: "string \<Rightarrow> string \<Rightarrow> string \<Rightarrow> string \<Rightarrow> question_record list" where
  "emitted block source_name module' difficulty' =
     (case parse_block block source_name module' difficulty' of
        Inr (Some q) \<Rightarrow> [q] | _ \<Rightarrow> [])"

text \<open>The letters that an option or an answer can carry.\<close>

definition letters :: "string set" where
  "letters = {''A'', ''B'', ''C'', ''D''}"

section \<open>Facts about characters\<close>

lemma of_char_lower_chr:
  "(of_char (lower_chr c) :: nat) =
     (if (65 \<le> (of_char c :: nat) \<and> (of_char c :: nat) \<le> 90) \<or>
         (192 \<le> (of_char c :: nat) \<and> (of_char c :: nat) \<le> 222 \<and> (of_char c :: nat) \<noteq> 215)
      then of_char c + 32 else of_char c)"
  by (simp add: lower_chr_def Let_def)

lemma of_char_upper_chr:
  "(of_char (upper_chr c) :: nat) =
     (if (97 \<le> (of_char c :: nat) \<and> (of_char c :: nat) \<le> 122) \<or>
         (224 \<le> (of_char c :: nat) \<and> (of_char c :: nat) \<le> 254 \<and> (of_char c :: nat) \<noteq> 247)
      then of_char c - 32 else of_char c)"
proof -
  have "(of_char c :: nat) - 32 < 256"
    using nat_of_char_less_256 [of c] by arith
  then show ?thesis
    by (simp add: upper_chr_def Let_def)
qed

lemma char_eq_code: "(of_char c :: nat) = of_char d \<Longrightarrow> c = d"
  by simp

lemma code_cases:
  "(65::nat) \<le> of_char x \<Longrightarrow> (of_char x :: nat) \<le> 68 \<Longrightarrow>
     x = CHR ''A'' \<or> x = CHR ''B'' \<or> x = CHR ''C'' \<or> x = CHR ''D''"
proof -
  assume a: "(65::nat) \<le> of_char x" "(of_char x :: nat) \<le> 68"
  have A: "(of_char CHR ''A'' :: nat) = 65" by simp
  have B: "(of_char CHR ''B'' :: nat) = 66" by simp
  have C: "(of_char CHR ''C'' :: nat) = 67" by simp
  have D: "(of_char CHR ''D'' :: nat) = 68" by simp
  from a have "(of_char x :: nat) = 65 \<or> (of_char x :: nat) = 66
     \<or> (of_char x :: nat) = 67 \<or> (of_char x :: nat) = 68"
    by arith
  then have "(of_char x :: nat) = of_char CHR ''A'' \<or> (of_char x :: nat) = of_char CHR ''B''
     \<or> (of_char x :: nat) = of_char CHR ''C'' \<or> (of_char x :: nat) = of_char CHR ''D''"
    by (simp only: A B C D)
  then show ?thesis
    by (simp only: of_char_eq_iff)
qed

lemma in_AD_upper:
  assumes "in_cls True (Range CHR ''A'' CHR ''D'') c"
  shows "upper [c] \<in> {''A'', ''B'', ''C'', ''D''}"
proof -
  define n where "n = (of_char c :: nat)"
  define u where "u = (of_char (upper_chr c) :: nat)"
  define l where "l = (of_char (lower_chr c) :: nat)"
  have u: "u = (if (97 \<le> n \<and> n \<le> 122) \<or> (224 \<le> n \<and> n \<le> 254 \<and> n \<noteq> 247) then n - 32 else n)"
    unfolding u_def n_def by (rule of_char_upper_chr)
  have l: "l = (if (65 \<le> n \<and> n \<le> 90) \<or> (192 \<le> n \<and> n \<le> 222 \<and> n \<noteq> 215) then n + 32 else n)"
    unfolding l_def n_def by (rule of_char_lower_chr)
  from assms have "(65 \<le> n \<and> n \<le> 68) \<or> (65 \<le> l \<and> l \<le> 68) \<or> (65 \<le> u \<and> u \<le> 68)"
    by (simp add: in_range_def n_def u_def l_def)
  then have "65 \<le> u \<and> u \<le> 68"
    unfolding u l by presburger
  then have "upper_chr c = CHR ''A'' \<or> upper_chr c = CHR ''B'' \<or> upper_chr c = CHR ''C''
      \<or> upper_chr c = CHR ''D''"
    unfolding u_def by (simp add: code_cases)
  then show ?thesis
    by (auto simp: upper_def)
qed

section \<open>Facts about the matcher\<close>

lemma advances_refl: "advances st st"
  unfolding advances_def by (rule exI [of _ 0]) simp

lemma advances_trans: "advances st st1 \<Longrightarrow> advances st1 st2 \<Longrightarrow> advances st st2"
proof -
  assume "advances st st1" and "advances st1 st2"
  then obtain k1 k2 where
    k1: "k1 \<le> length (fst (snd st))" "fst st1 = fst st + k1" "fst (snd st1) = drop k1 (fst (snd st))"
    and k2: "k2 \<le> length (fst (snd st1))" "fst st2 = fst st1 + k2" "fst (snd st2) = drop k2 (fst (snd st1))"
    unfolding advances_def by blast
  show ?thesis
    unfolding advances_def
    by (rule exI [of _ "k1 + k2"]) (use k1 k2 in \<open>simp add: add.commute\<close>)
qed

lemma ms_advances: "st' \<in> set (ms ic r st) \<Longrightarrow> advances st st'"
proof (induction ic r st arbitrary: st' rule: ms.induct)
  case (1 ic st)
  then show ?case by (simp add: advances_refl)
next
  case (2 ic c p s g)
  then show ?case
    by (cases s) (auto simp: advances_def split: if_splits intro: exI [of _ 1])
next
  case (3 ic k p s g)
  then show ?case
    by (cases s) (auto simp: advances_def split: if_splits intro: exI [of _ 1])
next
  case (4 ic a b st)
  from "4.prems" obtain st1 where "st1 \<in> set (ms ic a st)" "st' \<in> set (ms ic b st1)"
    by auto
  then show ?case
    using "4.IH" advances_trans by blast
next
  case (5 ic a b st)
  then show ?case by (cases st') auto
next
  case (6 ic a p s g)
  from "6.prems" consider "st' = (p, s, g)"
    | st1 where "st1 \<in> set (ms ic a (p, s, g))" "length (fst (snd st1)) < length s"
        "st' \<in> set (ms ic (Star a) st1)"
    by (auto split: if_splits)
  then show ?case
  proof cases
    case 1
    then show ?thesis by (simp add: advances_refl)
  next
    case 2
    then show ?thesis
      using "6.IH" advances_trans by blast
  qed
next
  case (7 ic n a p s g)
  then show ?case
    by (auto simp: advances_def)
next
  case (8 ic a st)
  then show ?case
    by (auto simp: advances_refl split: list.splits)
next
  case (9 ic p s g)
  then show ?case by (auto simp: advances_refl split: if_splits)
next
  case (10 ic p s g)
  then show ?case by (auto simp: advances_refl split: if_splits)
qed

lemma ms_groups: "st' \<in> set (ms ic r st) \<Longrightarrow> n \<notin> groups r \<Longrightarrow> snd (snd st') n = snd (snd st) n"
proof (induction ic r st arbitrary: st' rule: ms.induct)
  case (1 ic st)
  then show ?case by simp
next
  case (2 ic c p s g)
  then show ?case
    by (cases s) (auto split: if_splits)
next
  case (3 ic k p s g)
  then show ?case
    by (cases s) (auto split: if_splits)
next
  case (4 ic a b st)
  from "4.prems" obtain st1 where "st1 \<in> set (ms ic a st)" "st' \<in> set (ms ic b st1)"
    by auto
  with "4.IH" "4.prems" show ?case
    by simp
next
  case (5 ic a b st)
  then show ?case by (cases st') auto
next
  case (6 ic a p s g)
  from "6.prems" consider "st' = (p, s, g)"
    | st1 where "st1 \<in> set (ms ic a (p, s, g))" "length (fst (snd st1)) < length s"
        "st' \<in> set (ms ic (Star a) st1)"
    by (auto split: if_splits)
  then show ?case
  proof cases
    case 1
    then show ?thesis by simp
  next
    case 2
    with "6.IH" "6.prems" show ?thesis
      by simp
  qed
next
  case (7 ic m a p s g)
  then show ?case
    by auto
next
  case (8 ic a st)
  then show ?case
    by (auto split: list.splits)
next
  case (9 ic p s g)
  then show ?case by (auto split: if_splits)
next
  case (10 ic p s g)
  then show ?case by (auto split: if_splits)
qed

lemma upt_Suc_Suc: "[0..<Suc (Suc n)] = 0 # map Suc [0..<Suc n]"
proof -
  have "[0..<Suc (Suc n)] = 0 # [Suc 0..<Suc (Suc n)]"
    by (rule upt_conv_Cons) simp
  also have "[Suc 0..<Suc (Suc n)] = map Suc [0..<Suc n]"
    by (simp only: map_Suc_upt)
  finally show ?thesis .
qed

lemma ms_Star_Cls:
  "ms ic (Star (Cls c)) (p, s, g) =
     map (\<lambda>j. (p + j, drop j s, g)) (rev [0..<Suc (length (takeWhile (in_cls ic c) s))])"
proof (induction s arbitrary: p)
  case Nil
  show ?case by simp
next
  case (Cons x xs)
  show ?case
  proof (cases "in_cls ic c x")
    case False
    then show ?thesis by simp
  next
    case True
    let ?n = "length (takeWhile (in_cls ic c) xs)"
    have "ms ic (Star (Cls c)) (p, x # xs, g) = ms ic (Star (Cls c)) (Suc p, xs, g) @ [(p, x # xs, g)]"
      using True by simp
    also have "\<dots> = map (\<lambda>j. (Suc p + j, drop j xs, g)) (rev [0..<Suc ?n]) @ [(p, x # xs, g)]"
      by (simp only: Cons)
    also have "\<dots> = map (\<lambda>j. (p + j, drop j (x # xs), g)) (rev [0..<Suc (Suc ?n)])"
      by (simp only: upt_Suc_Suc) (simp add: rev_map comp_def)
    finally show ?thesis using True by simp
  qed
qed

lemma in_ms_Seq:
  "st' \<in> set (ms ic (Seq a b) st) \<longleftrightarrow> (\<exists>st1 \<in> set (ms ic a st). st' \<in> set (ms ic b st1))"
  by auto

lemma in_ms_Star_Cls:
  assumes "st' \<in> set (ms ic (Star (Cls c)) (p, s, g))"
  shows "\<exists>j. st' = (p + j, drop j s, g) \<and> list_all (in_cls ic c) (take j s)"
proof -
  let ?n = "length (takeWhile (in_cls ic c) s)"
  from assms obtain j where j: "j \<le> ?n" "st' = (p + j, drop j s, g)"
    unfolding ms_Star_Cls by auto
  have "take j s = take j (takeWhile (in_cls ic c) s @ dropWhile (in_cls ic c) s)"
    by simp
  also have "\<dots> = take j (takeWhile (in_cls ic c) s)"
    using j(1) by (simp del: takeWhile_dropWhile_id)
  finally have "take j s = take j (takeWhile (in_cls ic c) s)" .
  then have "set (take j s) \<subseteq> set (takeWhile (in_cls ic c) s)"
    by (metis set_take_subset)
  then have "list_all (in_cls ic c) (take j s)"
    by (auto simp: list_all_iff dest: set_takeWhileD)
  with j(2) show ?thesis by blast
qed

lemma in_ms_Plus_Cls:
  assumes "st' \<in> set (ms ic (Plus (Cls c)) (p, s, g))"
  shows "\<exists>j. 0 < j \<and> j \<le> length s \<and> st' = (p + j, drop j s, g) \<and> list_all (in_cls ic c) (take j s)"
proof -
  from assms obtain st1 where st1: "st1 \<in> set (ms ic (Cls c) (p, s, g))"
    and st': "st' \<in> set (ms ic (Star (Cls c)) st1)"
    unfolding Plus_def in_ms_Seq by blast
  from st1 obtain x xs where s: "s = x # xs" and x: "in_cls ic c x" and st1_eq: "st1 = (Suc p, xs, g)"
    by (cases s) (auto split: if_splits)
  from st' obtain j where j: "st' = (Suc p + j, drop j xs, g)" "list_all (in_cls ic c) (take j xs)"
    unfolding st1_eq using in_ms_Star_Cls by blast
  have "advances (p, s, g) st'"
    using assms by (rule ms_advances)
  then have "Suc j \<le> length s"
    unfolding advances_def j by auto
  show ?thesis
    by (rule exI [of _ "Suc j"]) (use j s x \<open>Suc j \<le> length s\<close> in simp)
qed

lemma in_ms_Group_digits:
  assumes "st' \<in> set (ms ic (Group n (Plus (Cls Digit))) st)"
  shows "\<exists>d. snd (snd st') n = Some d \<and> d \<noteq> [] \<and> list_all isdigit d"
proof -
  obtain p s g where st: "st = (p, s, g)" by (cases st)
  from assms obtain p' s' g' where in': "(p', s', g') \<in> set (ms ic (Plus (Cls Digit)) (p, s, g))"
    and st': "st' = (p', s', g'(n \<mapsto> take (p' - p) s))"
    unfolding st by auto
  from in_ms_Plus_Cls [OF in'] obtain j where
    j: "0 < j" "j \<le> length s" "p' = p + j" "list_all (in_cls ic Digit) (take j s)"
    by auto
  then have "take (p' - p) s \<noteq> []" "list_all isdigit (take (p' - p) s)"
    by (auto simp: list_all_iff)
  then show ?thesis
    unfolding st' by simp
qed


lemma in_ms_Seqs_Cons:
  "st' \<in> set (ms ic (Seqs (r # rs)) st) \<longleftrightarrow> (\<exists>st1 \<in> set (ms ic r st). st' \<in> set (ms ic (Seqs rs) st1))"
  by auto

lemma module_re_digits:
  assumes "m \<in> set (ms ic module_re st)"
  shows "\<exists>d. snd (snd m) 1 = Some d \<and> d \<noteq> [] \<and> list_all isdigit d"
proof -
  from assms obtain st1 st2 st3 where
    "m \<in> set (ms ic (Seqs [Group 1 (Plus (Cls Digit))]) st3)"
    unfolding module_re_def in_ms_Seqs_Cons by blast
  then have "m \<in> set (ms ic (Group 1 (Plus (Cls Digit))) st3)"
    by simp
  then show ?thesis
    by (rule in_ms_Group_digits)
qed

lemma question_re_digits:
  assumes "m \<in> set (ms ic question_re st)"
  shows "\<exists>d. snd (snd m) 1 = Some d \<and> d \<noteq> [] \<and> list_all isdigit d"
proof -
  let ?rest = "Seqs [Lit CHR ''.'', Star (Cls Space), Group 2 (Star (Cls AnyChar)), Eol]"
  from assms obtain st1 st2 st3 where
    st3: "st3 \<in> set (ms ic (Group 1 (Plus (Cls Digit))) st2)"
    and m: "m \<in> set (ms ic ?rest st3)"
    unfolding question_re_def in_ms_Seqs_Cons by blast
  have "1 \<notin> groups ?rest"
    by simp
  with m have "snd (snd m) 1 = snd (snd st3) 1"
    by (rule ms_groups)
  with in_ms_Group_digits [OF st3] show ?thesis
    by simp
qed

lemma in_ms_Group_letter:
  assumes "st' \<in> set (ms ic (Group n (Cls c)) st)"
  shows "\<exists>x. snd (snd st') n = Some [x] \<and> in_cls ic c x"
proof -
  obtain p s g where st: "st = (p, s, g)" by (cases st)
  from assms show ?thesis
    unfolding st by (cases s) (auto split: if_splits)
qed

lemma option_re_letter:
  assumes "m \<in> set (ms ic option_re st)"
  shows "\<exists>x. snd (snd m) 1 = Some [x] \<and> in_cls ic (Range CHR ''A'' CHR ''D'') x"
proof -
  let ?rest = "Seqs [Lit CHR ''.'', Star (Cls Space), Group 2 (Star (Cls AnyChar)), Eol]"
  from assms obtain st1 st2 where
    st2: "st2 \<in> set (ms ic (Group 1 (Cls (Range CHR ''A'' CHR ''D''))) st1)"
    and m: "m \<in> set (ms ic ?rest st2)"
    unfolding option_re_def in_ms_Seqs_Cons by blast
  have "1 \<notin> groups ?rest"
    by simp
  with m have "snd (snd m) 1 = snd (snd st2) 1"
    by (rule ms_groups)
  with in_ms_Group_letter [OF st2] show ?thesis
    by simp
qed

lemma answer_re_letter:
  assumes "m \<in> set (ms ic answer_re st)"
  shows "\<exists>x. snd (snd m) 1 = Some [x] \<and> in_cls ic (Range CHR ''A'' CHR ''D'') x"
proof -
  from assms obtain st1 st2 st3 where
    "m \<in> set (ms ic (Seqs [Group 1 (Cls (Range CHR ''A'' CHR ''D''))]) st3)"
    unfolding answer_re_def in_ms_Seqs_Cons by blast
  then have "m \<in> set (ms ic (Group 1 (Cls (Range CHR ''A'' CHR ''D''))) st3)"
    by simp
  then show ?thesis
    by (rule in_ms_Group_letter)
qed

lemma re_match_Some: "re_match ic r s = Some m \<Longrightarrow> m \<in> set (ms ic r (0, s, Map.empty))"
  unfolding re_match_def by (auto split: list.splits)

lemma search_from_Some:
  "search_from ic r pos s = Some m \<Longrightarrow> \<exists>st. m \<in> set (ms ic r st)"
proof (induction s arbitrary: pos)
  case Nil
  then show ?case
    by (auto split: list.splits) (metis list.set_intros(1))
next
  case (Cons c cs)
  show ?case
  proof (cases "ms ic r (pos, c # cs, Map.empty)")
    case Nil
    with Cons.prems have "search_from ic r (Suc pos) cs = Some m" by simp
    then show ?thesis by (rule Cons.IH)
  next
    case (Cons m' ms')
    with Cons.prems have "m = m'" by simp
    with Cons have "m \<in> set (ms ic r (pos, c # cs, Map.empty))" by simp
    then show ?thesis ..
  qed
qed

lemma group_Some: "snd (snd m) n = Some d \<Longrightarrow> group m n = d"
  by (simp add: group_def)

lemma digit_val_bounds: "isdigit c \<Longrightarrow> 0 \<le> digit_val c \<and> digit_val c \<le> 9"
  by (auto simp: isdigit_def digit_val_def Let_def)

lemma foldl_digits_bounds:
  "list_all isdigit d \<Longrightarrow> 0 \<le> a \<Longrightarrow> a < 10 ^ k \<Longrightarrow>
     0 \<le> foldl (\<lambda>acc c. 10 * acc + digit_val c) a d
     \<and> foldl (\<lambda>acc c. 10 * acc + digit_val c) a d < 10 ^ (k + length d)"
proof (induction d arbitrary: a k)
  case Nil
  then show ?case by simp
next
  case (Cons c d)
  from Cons.prems(1) have c: "0 \<le> digit_val c" "digit_val c \<le> 9" and d: "list_all isdigit d"
    using digit_val_bounds by simp_all
  from Cons.prems(2) c have lo: "0 \<le> 10 * a + digit_val c"
    by simp
  from Cons.prems(3) have "a + 1 \<le> 10 ^ k"
    by simp
  then have "10 * (a + 1) \<le> 10 * 10 ^ k"
    by (simp only: mult_le_cancel_left_pos)
  with c have hi: "10 * a + digit_val c < 10 ^ Suc k"
    by simp
  from Cons.IH [OF d lo hi] show ?case
    by simp
qed

lemma decimal_bounds: "list_all isdigit d \<Longrightarrow> 0 \<le> decimal d \<and> decimal d < 10 ^ length d"
  unfolding decimal_def using foldl_digits_bounds [of d 0 0] by simp

lemma str_of_nat_length: "n < 10 ^ k \<Longrightarrow> 0 < k \<Longrightarrow> length (str_of_nat n) \<le> k"
proof (induction k arbitrary: n)
  case 0
  then show ?case by simp
next
  case (Suc k)
  show ?case
  proof (cases "n < 10")
    case True
    then show ?thesis
      by (subst str_of_nat.simps) simp
  next
    case False
    with Suc.prems(1) have k: "0 < k"
      by (cases k) simp_all
    from Suc.prems(1) have "n div 10 < 10 ^ k"
      by (simp add: less_mult_imp_div_less mult.commute)
    from Suc.IH [OF this k] False show ?thesis
      by (subst str_of_nat.simps) simp
  qed
qed

lemma py_int_cases:
  "d \<noteq> [] \<Longrightarrow> list_all isdigit d \<Longrightarrow>
     py_int d = (if length d \<le> int_max_str_digits then Inr (decimal d) else Inl ValueError)"
  by (simp add: py_int_def)

lemma format_decimal:
  assumes "d \<noteq> []" and "list_all isdigit d" and "length d \<le> int_max_str_digits"
  shows "format_int (decimal d) = Inr (str_of_int (decimal d))"
proof -
  from decimal_bounds [OF assms(2)] have b: "0 \<le> decimal d" "decimal d < 10 ^ length d"
    by simp_all
  then have "nat \<bar>decimal d\<bar> < 10 ^ length d"
    by (simp add: nat_less_iff)
  moreover from assms(1) have "0 < length d"
    by simp
  ultimately have "length (str_of_nat (nat \<bar>decimal d\<bar>)) \<le> length d"
    by (rule str_of_nat_length)
  with assms(3) show ?thesis
    by (simp add: format_int_def)
qed

lemma py_int_error: "py_int s = Inl e \<Longrightarrow> e = ValueError"
  by (auto simp: py_int_def split: if_splits)

lemma format_int_error: "format_int i = Inl e \<Longrightarrow> e = ValueError"
  by (auto simp: format_int_def split: if_splits)

lemma question_line_cases:
  "question_line l =
     (case re_match True question_re l of
        None \<Rightarrow> Inr (None, l)
      | Some m \<Rightarrow> if length (group m 1) \<le> int_max_str_digits
                  then Inr (Some (decimal (group m 1)), group m 2) else Inl ValueError)"
proof (cases "re_match True question_re l")
  case None
  then show ?thesis by (simp add: question_line_def)
next
  case (Some m)
  then have "m \<in> set (ms True question_re (0, l, Map.empty))"
    by (rule re_match_Some)
  then obtain d where "snd (snd m) 1 = Some d" "d \<noteq> []" "list_all isdigit d"
    using question_re_digits by blast
  then have "group m 1 \<noteq> []" "list_all isdigit (group m 1)"
    by (simp_all add: group_Some)
  then have "py_int (group m 1) =
      (if length (group m 1) \<le> int_max_str_digits then Inr (decimal (group m 1)) else Inl ValueError)"
    by (rule py_int_cases)
  with Some show ?thesis by (simp add: question_line_def)
qed

lemma question_line_short: "short_number l \<Longrightarrow> \<exists>qn qt. question_line l = Inr (qn, qt)"
  unfolding question_line_cases short_number_def by (auto split: option.splits)

lemma question_line_long: "\<not> short_number l \<Longrightarrow> question_line l = Inl ValueError"
  unfolding question_line_cases short_number_def by (auto split: option.splits)

lemma question_line_Inr: "question_line l = Inr x \<Longrightarrow> short_number l"
  using question_line_long by fastforce

text \<open>The second group of the patterns for the question line and the option line is always set.\<close>

lemma in_ms_Group_set:
  "st' \<in> set (ms ic (Group n a) st) \<Longrightarrow> snd (snd st') n \<noteq> None"
  by (cases st) auto

lemma option_re_text:
  assumes "m \<in> set (ms ic option_re st)"
  shows "snd (snd m) 2 \<noteq> None"
proof -
  from assms obtain st1 st2 st3 st4 st5 where
    st5: "st5 \<in> set (ms ic (Group 2 (Star (Cls AnyChar))) st4)"
    and m: "m \<in> set (ms ic (Seqs [Eol]) st5)"
    unfolding option_re_def in_ms_Seqs_Cons by blast
  have "2 \<notin> groups (Seqs [Eol])"
    by simp
  with m have "snd (snd m) 2 = snd (snd st5) 2"
    by (rule ms_groups)
  with in_ms_Group_set [OF st5] show ?thesis
    by simp
qed

lemma question_re_text:
  assumes "m \<in> set (ms ic question_re st)"
  shows "snd (snd m) 2 \<noteq> None"
proof -
  from assms obtain st1 st2 st3 st4 st5 st6 where
    st6: "st6 \<in> set (ms ic (Group 2 (Star (Cls AnyChar))) st5)"
    and m: "m \<in> set (ms ic (Seqs [Eol]) st6)"
    unfolding question_re_def in_ms_Seqs_Cons by blast
  have "2 \<notin> groups (Seqs [Eol])"
    by simp
  with m have "snd (snd m) 2 = snd (snd st6) 2"
    by (rule ms_groups)
  with in_ms_Group_set [OF st6] show ?thesis
    by simp
qed

section \<open>The module pattern\<close>

lemma decimal_zero: "decimal (CHR ''0'' # d) = decimal d"
  by (simp add: decimal_def digit_val_def)

lemma rev_upt_Suc: "rev [0..<Suc n] = n # rev [0..<n]"
  by simp

lemma ms_Star_Cls_Cons:
  "ms ic (Star (Cls c)) (p, s, g) =
     (p + length (takeWhile (in_cls ic c) s), dropWhile (in_cls ic c) s, g)
     # map (\<lambda>j. (p + j, drop j s, g)) (rev [0..<length (takeWhile (in_cls ic c) s)])"
  unfolding ms_Star_Cls rev_upt_Suc by (simp add: dropWhile_eq_drop)

lemma ms_Lits:
  "ms True (Lits w) (p, s, g) =
     (if length w \<le> length s \<and> lower (take (length w) s) = lower w
      then [(p + length w, drop (length w) s, g)] else [])"
proof (induction w arbitrary: p s)
  case Nil
  show ?case by (simp add: lower_def)
next
  case (Cons c w)
  show ?case
  proof (cases s)
    case Nil
    then show ?thesis by simp
  next
    case (Cons x xs)
    then show ?thesis
      using Cons.IH [of "Suc p" xs] by (simp add: lit_eq_def lower_def)
  qed
qed

lemma space_not_digit: "isspace c \<Longrightarrow> \<not> isdigit c"
  by (auto simp: isspace_def isdigit_def Let_def)

lemma in_cls_Digit: "in_cls ic Digit = isdigit"
  by (rule ext) simp

lemma in_cls_Space: "in_cls ic Space = isspace"
  by (rule ext) simp

lemma take_takeWhile_len: "take (length (takeWhile P xs)) xs = takeWhile P xs"
  by (rule takeWhile_eq_take [symmetric])

lemma lit_eq_uncased:
  assumes "(of_char c :: nat) < 65 \<or> (90 < (of_char c :: nat) \<and> (of_char c :: nat) < 97)
           \<or> (122 < (of_char c :: nat) \<and> (of_char c :: nat) < 192)"
  shows "lit_eq ic c x \<longleftrightarrow> x = c"
proof -
  define n where "n = (of_char c :: nat)"
  define k where "k = (of_char x :: nat)"
  have c: "lower_chr c = c"
    using assms by (auto simp: lower_chr_def Let_def)
  have "lower_chr x = c \<longleftrightarrow> (of_char (lower_chr x) :: nat) = of_char c"
    by simp
  also have "\<dots> \<longleftrightarrow> k = n"
    using assms unfolding of_char_lower_chr n_def [symmetric] k_def [symmetric] by presburger
  also have "\<dots> \<longleftrightarrow> x = c"
    unfolding n_def k_def by simp
  finally show ?thesis
    by (simp add: lit_eq_def c)
qed

lemma lit_eq_zero [simp]: "lit_eq ic CHR ''0'' x \<longleftrightarrow> x = CHR ''0''"
  by (rule lit_eq_uncased) simp

lemma lit_eq_dot [simp]: "lit_eq ic CHR ''.'' x \<longleftrightarrow> x = CHR ''.''"
  by (rule lit_eq_uncased) simp

lemma isdigit_zero [simp]: "isdigit CHR ''0''"
  by (simp add: isdigit_def)

lemma ms_digits_none:
  "s = [] \<or> \<not> isdigit (hd s) \<Longrightarrow> ms ic (Group n (Plus (Cls Digit))) (p, s, g) = []"
  by (cases s) (auto simp: Plus_def)

lemma ms_digits_some:
  assumes "s \<noteq> []" and "isdigit (hd s)"
  shows "\<exists>rest. ms ic (Group n (Plus (Cls Digit))) (p, s, g)
           = (p + length (takeWhile isdigit s), dropWhile isdigit s, g(n \<mapsto> takeWhile isdigit s)) # rest"
proof -
  from assms obtain x xs where s: "s = x # xs" and x: "isdigit x"
    by (cases s) auto
  have "ms ic (Plus (Cls Digit)) (p, s, g) = ms ic (Star (Cls Digit)) (Suc p, xs, g)"
    unfolding s Plus_def using x by simp
  also have "\<dots> = (Suc p + length (takeWhile isdigit xs), dropWhile isdigit xs, g)
     # map (\<lambda>j. (Suc p + j, drop j xs, g)) (rev [0..<length (takeWhile isdigit xs)])"
    by (subst ms_Star_Cls_Cons) (simp add: in_cls_Digit)
  finally have "ms ic (Plus (Cls Digit)) (p, s, g) =
      (Suc p + length (takeWhile isdigit xs), dropWhile isdigit xs, g)
     # map (\<lambda>j. (Suc p + j, drop j xs, g)) (rev [0..<length (takeWhile isdigit xs)])" .
  then show ?thesis
    unfolding s using x by (simp add: take_takeWhile_len)
qed


lemma concat_ms_Eps: "concat (map (ms ic Eps) sts) = sts"
  by (induction sts) simp_all

lemma ms_Seq_Eps: "ms ic (Seq r Eps) = ms ic r"
  by (rule ext) (simp add: concat_ms_Eps)

lemma ms_Seqs_Opt:
  "ms ic (Seqs [Opt a, r]) st = concat (map (ms ic r) (ms ic a st)) @ ms ic r st"
  by (simp add: Opt_def ms_Seq_Eps)

lemma after_keyword_unfold:
  "ms ic after_keyword st =
     concat (map (ms ic (Group 1 (Plus (Cls Digit)))) (ms ic (Lit CHR ''0'') st))
     @ ms ic (Group 1 (Plus (Cls Digit))) st"
  unfolding after_keyword_def by (rule ms_Seqs_Opt)

lemma after_keyword_none:
  assumes "s = [] \<or> \<not> isdigit (hd s)"
  shows "ms ic after_keyword (p, s, g) = []"
proof -
  have d: "ms ic (Group 1 (Plus (Cls Digit))) (p, s, g) = []"
    using assms by (rule ms_digits_none)
  have z: "ms ic (Lit CHR ''0'') (p, s, g) = []"
    using assms by (cases s) auto
  show ?thesis
    unfolding after_keyword_unfold d z by simp
qed

lemma takeWhile_digits: "list_all isdigit (takeWhile isdigit s)"
  by (auto simp: list_all_iff dest: set_takeWhileD)

lemma captured_digits:
  assumes "ds \<noteq> []" and "list_all isdigit ds"
  shows "captured ds \<noteq> []" and "list_all isdigit (captured ds)"
    and "decimal (captured ds) = decimal ds" and "length (captured ds) \<le> length ds"
proof -
  from assms obtain x xs where ds: "ds = x # xs"
    by (cases ds) auto
  show "captured ds \<noteq> []"
    unfolding ds captured_def by (cases xs) simp_all
  show "list_all isdigit (captured ds)"
    using assms(2) unfolding ds captured_def by simp
  show "decimal (captured ds) = decimal ds"
    unfolding ds captured_def by (simp add: decimal_zero)
  show "length (captured ds) \<le> length ds"
    unfolding ds captured_def by simp
qed

lemma after_keyword_some:
  assumes "s \<noteq> []" and "isdigit (hd s)"
  shows "\<exists>m rest. ms ic after_keyword (p, s, g) = m # rest
           \<and> snd (snd m) 1 = Some (captured (takeWhile isdigit s))"
proof -
  let ?G = "Group 1 (Plus (Cls Digit))"
  from assms obtain x xs where s: "s = x # xs" and x: "isdigit x"
    by (cases s) auto
  from ms_digits_some [OF assms] obtain rest where
    whole: "ms ic ?G (p, s, g)
           = (p + length (takeWhile isdigit s), dropWhile isdigit s, g(1 \<mapsto> takeWhile isdigit s)) # rest"
    by blast
  have tw: "takeWhile isdigit s = x # takeWhile isdigit xs"
    using x by (simp add: s)
  show ?thesis
  proof (cases "x = CHR ''0'' \<and> xs \<noteq> [] \<and> isdigit (hd xs)")
    case True
    then have z: "ms ic (Lit CHR ''0'') (p, s, g) = [(Suc p, xs, g)]"
      by (simp add: s)
    from True ms_digits_some [of xs ic 1 "Suc p" g] obtain rest' where
      inner: "ms ic ?G (Suc p, xs, g)
           = (Suc p + length (takeWhile isdigit xs), dropWhile isdigit xs, g(1 \<mapsto> takeWhile isdigit xs)) # rest'"
      by blast
    from True have "takeWhile isdigit xs \<noteq> []"
      by (cases xs) simp_all
    then have "2 \<le> length (takeWhile isdigit s)"
      unfolding tw by (cases "takeWhile isdigit xs") simp_all
    with True have "captured (takeWhile isdigit s) = takeWhile isdigit xs"
      by (simp add: captured_def tw)
    then show ?thesis
      by (simp add: after_keyword_unfold z inner del: ms.simps One_nat_def)
  next
    case False
    have z: "concat (map (ms ic ?G) (ms ic (Lit CHR ''0'') (p, s, g))) = []"
    proof (cases "x = CHR ''0''")
      case True
      with False have "xs = [] \<or> \<not> isdigit (hd xs)" by simp
      then have "ms ic ?G (Suc p, xs, g) = []"
        by (rule ms_digits_none)
      with True show ?thesis
        by (simp add: s)
    next
      case False
      then show ?thesis by (simp add: s)
    qed
    from False have "x \<noteq> CHR ''0'' \<or> takeWhile isdigit xs = []"
      by (cases xs) auto
    then have "captured (takeWhile isdigit s) = takeWhile isdigit s"
      by (auto simp: captured_def tw)
    then show ?thesis
      by (simp add: after_keyword_unfold z whole del: ms.simps One_nat_def)
  qed
qed

lemma module_re_unfold:
  "ms ic module_re st =
     concat (map (ms ic (Seq (Star (Cls Space)) after_keyword))
                 (ms ic (Lits ''md'') st @ ms ic (Lits ''mod'') st))"
  by (simp add: module_re_def after_keyword_def del: ms.simps(2,3,6,7))

lemma concat_map_empty: "(\<And>x. x \<in> set xs \<Longrightarrow> f x = []) \<Longrightarrow> concat (map f xs) = []"
  by (induction xs) simp_all

lemma blanks_then_digits:
  "ms ic (Seq (Star (Cls Space)) after_keyword) (p, s, g)
     = ms ic after_keyword (p + length (takeWhile isspace s), dropWhile isspace s, g)"
proof -
  let ?n = "length (takeWhile isspace s)"
  have tail: "concat (map (ms ic after_keyword) (map (\<lambda>j. (p + j, drop j s, g)) (rev [0..<?n]))) = []"
  proof (rule concat_map_empty)
    fix st
    assume "st \<in> set (map (\<lambda>j. (p + j, drop j s, g)) (rev [0..<?n]))"
    then obtain j where j: "j < ?n" and st: "st = (p + j, drop j s, g)"
      by auto
    from j have "j < length s"
      by (meson length_takeWhile_le less_le_trans)
    then have hd: "hd (drop j s) = s ! j"
      by (simp add: hd_drop_conv_nth)
    from j have "isspace (takeWhile isspace s ! j)"
      by (meson nth_mem set_takeWhileD)
    with j have "isspace (s ! j)"
      by (simp add: takeWhile_nth)
    with hd have "\<not> isdigit (hd (drop j s))"
      by (simp add: space_not_digit)
    then show "ms ic after_keyword st = []"
      unfolding st by (intro after_keyword_none) simp
  qed
  have "ms ic (Seq (Star (Cls Space)) after_keyword) (p, s, g)
      = concat (map (ms ic after_keyword) (ms ic (Star (Cls Space)) (p, s, g)))"
    by (simp del: ms.simps(6))
  also have "\<dots> = ms ic after_keyword (p + ?n, dropWhile isspace s, g)"
    unfolding ms_Star_Cls_Cons in_cls_Space using tail by simp
  finally show ?thesis .
qed

lemma lower_md: "lower ''md'' = ''md''" "lower ''mod'' = ''mod''"
  by (simp_all add: lower_def lower_chr_def)

lemma not_both_keywords:
  "lower (take 2 s) = ''md'' \<Longrightarrow> lower (take 3 s) \<noteq> ''mod''"
  by (cases s; cases "tl s"; cases "tl (tl s)") (auto simp: lower_def)

lemma keywords_at:
  "ms True (Lits ''md'') (p, s, g) @ ms True (Lits ''mod'') (p, s, g)
     = (case keyword_at s of None \<Rightarrow> [] | Some u \<Rightarrow> [(p + (length s - length u), u, g)])"
  using not_both_keywords [of s]
  by (auto simp: ms_Lits lower_md keyword_at_def numeral_2_eq_2 numeral_3_eq_3
      simp del: ms.simps Lits.simps)

lemma digits_after_empty:
  "digits_after u = [] \<longleftrightarrow> dropWhile isspace u = [] \<or> \<not> isdigit (hd (dropWhile isspace u))"
  unfolding digits_after_def by (rule takeWhile_eq_Nil_iff)

lemma module_re_at:
  "(pattern_at s = None \<longrightarrow> ms True module_re (p, s, g) = []) \<and>
   (\<forall>d0. pattern_at s = Some d0 \<longrightarrow>
      (\<exists>m rest. ms True module_re (p, s, g) = m # rest \<and> snd (snd m) 1 = Some (captured d0)))"
proof (cases "keyword_at s")
  case None
  then show ?thesis
    by (simp add: pattern_at_def module_re_unfold keywords_at del: ms.simps Lits.simps)
next
  case (Some u)
  let ?w = "dropWhile isspace u"
  let ?q = "p + (length s - length u) + length (takeWhile isspace u)"
  have ms: "ms True module_re (p, s, g) = ms True after_keyword (?q, ?w, g)"
    by (simp add: module_re_unfold keywords_at Some blanks_then_digits del: ms.simps Lits.simps)
  show ?thesis
  proof (cases "digits_after u = []")
    case True
    then have "ms True after_keyword (?q, ?w, g) = []"
      unfolding digits_after_empty by (rule after_keyword_none)
    with True Some ms show ?thesis
      by (simp add: pattern_at_def)
  next
    case False
    then have "?w \<noteq> []" "isdigit (hd ?w)"
      unfolding digits_after_empty by simp_all
    from after_keyword_some [OF this, of True ?q g] obtain m rest where
      "ms True after_keyword (?q, ?w, g) = m # rest"
      "snd (snd m) 1 = Some (captured (takeWhile isdigit ?w))"
      by blast
    with False Some ms show ?thesis
      by (auto simp: pattern_at_def digits_after_def)
  qed
qed

lemma search_module_re:
  "(find_pattern s = None \<longrightarrow> search_from True module_re pos s = None) \<and>
   (\<forall>d0. find_pattern s = Some d0 \<longrightarrow>
      (\<exists>m. search_from True module_re pos s = Some m \<and> snd (snd m) 1 = Some (captured d0)))"
proof (induction s arbitrary: pos)
  case Nil
  have "pattern_at [] = None"
    by (simp add: pattern_at_def keyword_at_def)
  with module_re_at [of "[]" pos Map.empty] show ?case
    by simp
next
  case (Cons c cs)
  show ?case
  proof (cases "pattern_at (c # cs)")
    case None
    with module_re_at [of "c # cs" pos Map.empty]
    have "ms True module_re (pos, c # cs, Map.empty) = []"
      by simp
    with None Cons [of "Suc pos"] show ?thesis
      by simp
  next
    case (Some d0)
    with module_re_at [of "c # cs" pos Map.empty] obtain m rest where
      "ms True module_re (pos, c # cs, Map.empty) = m # rest" "snd (snd m) 1 = Some (captured d0)"
      by blast
    with Some show ?thesis
      by simp
  qed
qed

lemma pattern_at_digits: "pattern_at s = Some d \<Longrightarrow> d \<noteq> [] \<and> list_all isdigit d"
  by (auto simp: pattern_at_def digits_after_def takeWhile_digits split: option.splits if_splits)

lemma find_pattern_digits: "find_pattern s = Some d \<Longrightarrow> d \<noteq> [] \<and> list_all isdigit d"
  by (induction s) (auto split: option.splits dest: pattern_at_digits)

lemma extract_module_cases:
  "extract_module label =
     (case find_pattern label of
        None \<Rightarrow> Inr ''Other''
      | Some ds \<Rightarrow> if length (captured ds) \<le> int_max_str_digits
                   then Inr (''MD'' @ str_of_int (decimal ds)) else Inl ValueError)"
proof (cases "find_pattern label")
  case None
  with search_module_re [of label 0] show ?thesis
    by (simp add: extract_module_def re_search_def)
next
  case (Some d0)
  with search_module_re [of label 0] obtain m where
    m: "search_from True module_re 0 label = Some m" "snd (snd m) 1 = Some (captured d0)"
    by blast
  from find_pattern_digits [OF Some] have d0: "d0 \<noteq> []" "list_all isdigit d0"
    by simp_all
  note c = captured_digits [OF d0]
  have g: "group m 1 = captured d0"
    using m(2) by (rule group_Some)
  show ?thesis
  proof (cases "length (captured d0) \<le> int_max_str_digits")
    case True
    with c have "py_int (captured d0) = Inr (decimal d0)"
      by (simp add: py_int_cases)
    moreover from c True have "format_int (decimal d0) = Inr (str_of_int (decimal d0))"
      using format_decimal [of "captured d0"] by simp
    ultimately show ?thesis
      using Some m(1) g True by (simp add: extract_module_def re_search_def)
  next
    case False
    with c have "py_int (captured d0) = Inl ValueError"
      by (simp add: py_int_cases)
    then show ?thesis
      using Some m(1) g False by (simp add: extract_module_def re_search_def)
  qed
qed

lemma extract_module_ok: "label_ok label \<Longrightarrow> extract_module label = Inr (module_spec label)"
  unfolding extract_module_cases label_ok_def module_spec_def by (auto split: option.splits)

lemma extract_module_long: "\<not> label_ok label \<Longrightarrow> extract_module label = Inl ValueError"
  unfolding extract_module_cases label_ok_def by (auto split: option.splits)

section \<open>Where the parser returns and where it raises\<close>

lemma getitem_in [simp]: "i < length xs \<Longrightarrow> getitem xs i = Inr (xs ! i)"
  by (simp add: getitem_def)

lemma question_cond_eq:
  "question_cond lines idx =
     Inr (idx < length lines \<and> \<not> truthy (re_match True option_start_re (lines ! idx))
          \<and> \<not> startswith (lower (lines ! idx)) ''answer:'')"
  by (simp add: question_cond_def)

lemma wrap_cond_eq:
  "wrap_cond lines idx =
     Inr (idx < length lines \<and> \<not> truthy (re_match True option_start_re (lines ! idx))
          \<and> \<not> startswith (lower (lines ! idx)) ''answer:''
          \<and> \<not> startswith (lower (lines ! idx)) ''explanation:'')"
  by (simp add: wrap_cond_def)

lemma options_cond_eq:
  "options_cond lines idx =
     Inr (idx < length lines \<and> truthy (re_match True option_start_re (lines ! idx)))"
  by (simp add: options_cond_def)

lemma question_loop_step:
  "question_loop lines idx qt =
     (if idx < length lines \<and> \<not> truthy (re_match True option_start_re (lines ! idx))
          \<and> \<not> startswith (lower (lines ! idx)) ''answer:''
      then question_loop lines (idx + 1) (qt @ '' '' @ lines ! idx)
      else Inr (idx, qt))"
  by (subst question_loop.simps) (simp add: question_cond_eq)

lemma wrap_loop_step:
  "wrap_loop lines idx tp =
     (if idx < length lines \<and> \<not> truthy (re_match True option_start_re (lines ! idx))
          \<and> \<not> startswith (lower (lines ! idx)) ''answer:''
          \<and> \<not> startswith (lower (lines ! idx)) ''explanation:''
      then wrap_loop lines (idx + 1) (tp @ '' '' @ lines ! idx)
      else Inr (idx, tp))"
  by (subst wrap_loop.simps) (simp add: wrap_cond_eq)

lemma options_loop_step:
  "options_loop lines idx opts =
     (if idx < length lines \<and> truthy (re_match True option_start_re (lines ! idx))
      then (case re_match True option_re (lines ! idx) of
              None \<Rightarrow> options_loop lines (idx + 1) opts
            | Some m \<Rightarrow>
                ebind (wrap_loop lines (idx + 1) (group m 2)) (\<lambda>(idx', text_part).
                  options_loop lines idx' (opts @ [(upper (group m 1), text_part)])))
      else Inr (idx, opts))"
  by (subst options_loop.simps) (simp add: options_cond_eq)

lemma question_loop_total: "\<exists>idx' qt'. question_loop lines idx qt = Inr (idx', qt') \<and> idx \<le> idx'"
proof (induction "length lines - idx" arbitrary: idx qt rule: less_induct)
  case less
  show ?case
  proof (cases "idx < length lines \<and> \<not> truthy (re_match True option_start_re (lines ! idx))
          \<and> \<not> startswith (lower (lines ! idx)) ''answer:''")
    case False
    then show ?thesis
      by (subst question_loop_step) auto
  next
    case True
    then have "length lines - (idx + 1) < length lines - idx" by arith
    from less [OF this, of "qt @ '' '' @ lines ! idx"] obtain idx' qt' where
      "question_loop lines (idx + 1) (qt @ '' '' @ lines ! idx) = Inr (idx', qt')" "idx + 1 \<le> idx'"
      by blast
    with True show ?thesis
      by (subst question_loop_step) auto
  qed
qed

lemma wrap_loop_total: "\<exists>idx' tp'. wrap_loop lines idx tp = Inr (idx', tp') \<and> idx \<le> idx'"
proof (induction "length lines - idx" arbitrary: idx tp rule: less_induct)
  case less
  show ?case
  proof (cases "idx < length lines \<and> \<not> truthy (re_match True option_start_re (lines ! idx))
          \<and> \<not> startswith (lower (lines ! idx)) ''answer:''
          \<and> \<not> startswith (lower (lines ! idx)) ''explanation:''")
    case False
    then show ?thesis
      by (subst wrap_loop_step) auto
  next
    case True
    then have "length lines - (idx + 1) < length lines - idx" by arith
    from less [OF this, of "tp @ '' '' @ lines ! idx"] obtain idx' tp' where
      "wrap_loop lines (idx + 1) (tp @ '' '' @ lines ! idx) = Inr (idx', tp')" "idx + 1 \<le> idx'"
      by blast
    with True show ?thesis
      by (subst wrap_loop_step) auto
  qed
qed

lemma options_loop_total:
  "\<exists>idx' opts'. options_loop lines idx opts = Inr (idx', opts') \<and> idx \<le> idx'"
proof (induction "length lines - idx" arbitrary: idx opts rule: less_induct)
  case less
  show ?case
  proof (cases "idx < length lines \<and> truthy (re_match True option_start_re (lines ! idx))")
    case False
    then show ?thesis
      by (subst options_loop_step) auto
  next
    case True
    show ?thesis
    proof (cases "re_match True option_re (lines ! idx)")
      case None
      from True have "length lines - (idx + 1) < length lines - idx" by arith
      from less [OF this, of opts] obtain idx' opts' where
        "options_loop lines (idx + 1) opts = Inr (idx', opts')" "idx + 1 \<le> idx'"
        by blast
      with True None show ?thesis
        by (subst options_loop_step) auto
    next
      case (Some m)
      obtain j tp where w: "wrap_loop lines (idx + 1) (group m 2) = Inr (j, tp)" "idx + 1 \<le> j"
        using wrap_loop_total by blast
      with True have "length lines - j < length lines - idx" by arith
      from less [OF this, of "opts @ [(upper (group m 1), tp)]"] obtain idx' opts' where
        "options_loop lines j (opts @ [(upper (group m 1), tp)]) = Inr (idx', opts')" "j \<le> idx'"
        by blast
      with True Some w show ?thesis
        by (subst options_loop_step) auto
    qed
  qed
qed

lemma options_loop_extends:
  "\<exists>idx' more. options_loop lines idx opts = Inr (idx', opts @ more)"
proof (induction "length lines - idx" arbitrary: idx opts rule: less_induct)
  case less
  show ?case
  proof (cases "idx < length lines \<and> truthy (re_match True option_start_re (lines ! idx))")
    case False
    then show ?thesis
      by (subst options_loop_step) auto
  next
    case True
    show ?thesis
    proof (cases "re_match True option_re (lines ! idx)")
      case None
      from True have "length lines - (idx + 1) < length lines - idx" by arith
      from less [OF this, of opts] obtain idx' more where
        "options_loop lines (idx + 1) opts = Inr (idx', opts @ more)"
        by blast
      with True None show ?thesis
        by (subst options_loop_step) auto
    next
      case (Some m)
      obtain j tp where w: "wrap_loop lines (idx + 1) (group m 2) = Inr (j, tp)" "idx + 1 \<le> j"
        using wrap_loop_total by blast
      with True have "length lines - j < length lines - idx" by arith
      from less [OF this, of "opts @ [(upper (group m 1), tp)]"] obtain idx' more where
        "options_loop lines j (opts @ [(upper (group m 1), tp)])
           = Inr (idx', (opts @ [(upper (group m 1), tp)]) @ more)"
        by blast
      then have "options_loop lines j (opts @ [(upper (group m 1), tp)])
           = Inr (idx', opts @ ((upper (group m 1), tp) # more))"
        by simp
      with True Some w show ?thesis
        by (subst options_loop_step) auto
    qed
  qed
qed

lemma answer_loop_total:
  "list_all (\<lambda>i. i < length lines) js \<Longrightarrow> \<exists>r. answer_loop lines idx js = Inr r"
  by (induction js) (auto split: option.splits)

lemma explanation_loop_total:
  "list_all (\<lambda>i. i < length lines) js \<Longrightarrow> \<exists>r. explanation_loop lines js st = Inr r"
proof (induction js arbitrary: st)
  case Nil
  show ?case by simp
next
  case (Cons j js)
  obtain e b where st: "st = (e, b)" by (cases st)
  from Cons show ?case
    unfolding st by simp
qed

lemma upt_in_range: "list_all (\<lambda>i. i < n) [m..<n]"
  by (simp add: list_all_iff)

lemma scan_lines_short:
  assumes "lines \<noteq> []" and "short_number (lines ! 0)"
  shows "\<exists>sc. scan_lines lines = Inr sc"
proof -
  from assms(1) have 0: "getitem lines 0 = Inr (lines ! 0)" by simp
  obtain qn qt where q: "question_line (lines ! 0) = Inr (qn, qt)"
    using question_line_short [OF assms(2)] by blast
  obtain idx qt' where ql: "question_loop lines (Suc 0) qt = Inr (idx, qt')"
    using question_loop_total by blast
  obtain idx' opts where ol: "options_loop lines idx [] = Inr (idx', opts)"
    using options_loop_total by blast
  obtain al idx'' where al: "answer_loop lines idx' [idx'..<length lines] = Inr (al, idx'')"
    using answer_loop_total [OF upt_in_range] by (metis surj_pair)
  obtain ex b where el: "explanation_loop lines [idx''..<length lines] ([], False) = Inr (ex, b)"
    using explanation_loop_total [OF upt_in_range] by (metis surj_pair)
  show ?thesis
    by (simp add: scan_lines_def 0 q ql ol al el)
qed

lemma scan_lines_long:
  assumes "lines \<noteq> []" and "\<not> short_number (lines ! 0)"
  shows "scan_lines lines = Inl ValueError"
  using assms by (simp add: scan_lines_def question_line_long)

lemma block_ok_iff: "block_ok block \<longleftrightarrow> block_lines block = [] \<or> short_number (block_lines block ! 0)"
  by (cases "block_lines block") (simp_all add: block_ok_def)

lemma parse_block_ok:
  "block_ok block \<Longrightarrow> \<exists>r. parse_block block source_name module' difficulty' = Inr r"
proof (cases "block_lines block = []")
  case True
  then show ?thesis by (simp add: parse_block_def)
next
  case False
  moreover assume "block_ok block"
  ultimately obtain sc where "scan_lines (block_lines block) = Inr sc"
    using scan_lines_short block_ok_iff by blast
  with False show ?thesis by (simp add: parse_block_def)
qed

lemma parse_block_long:
  "\<not> block_ok block \<Longrightarrow> parse_block block source_name module' difficulty' = Inl ValueError"
  unfolding block_ok_iff by (simp add: parse_block_def scan_lines_long)

lemma blocks_loop_ok:
  "list_all block_ok blocks \<Longrightarrow>
     \<exists>rs. blocks_loop blocks source_name module' difficulty' questions = Inr rs"
proof (induction blocks arbitrary: questions)
  case Nil
  show ?case by simp
next
  case (Cons block blocks)
  from Cons.prems have ok: "block_ok block" and rest: "list_all block_ok blocks"
    by simp_all
  obtain r where "parse_block block source_name module' difficulty' = Inr r"
    using parse_block_ok [OF ok] by blast
  with Cons.IH [OF rest] show ?case
    by (cases r) simp_all
qed

lemma blocks_loop_long:
  "\<not> list_all block_ok blocks \<Longrightarrow>
     blocks_loop blocks source_name module' difficulty' questions = Inl ValueError"
proof (induction blocks arbitrary: questions)
  case Nil
  then show ?case by simp
next
  case (Cons block blocks)
  show ?case
  proof (cases "block_ok block")
    case False
    then show ?thesis
      by (simp add: parse_block_long)
  next
    case True
    then obtain r where "parse_block block source_name module' difficulty' = Inr r"
      using parse_block_ok by blast
    moreover from True Cons.prems have "\<not> list_all block_ok blocks"
      by simp
    ultimately show ?thesis
      using Cons.IH by (cases r) simp_all
  qed
qed

lemma ebind_eq_Inr: "ebind m f = Inr y \<longleftrightarrow> (\<exists>x. m = Inr x \<and> f x = Inr y)"
  by (cases m) simp_all

lemma blocks_loop_Inr:
  "blocks_loop blocks source_name module' difficulty' questions = Inr rs \<Longrightarrow>
     rs = questions @ concat (map (\<lambda>b. emitted b source_name module' difficulty') blocks)"
proof (induction blocks arbitrary: questions)
  case Nil
  then show ?case by simp
next
  case (Cons block blocks)
  from Cons.prems obtain r where r: "parse_block block source_name module' difficulty' = Inr r"
    by (auto simp: ebind_eq_Inr)
  show ?case
  proof (cases r)
    case None
    with Cons.prems r have "blocks_loop blocks source_name module' difficulty' questions = Inr rs"
      by simp
    from Cons.IH [OF this] None r show ?thesis
      by (simp add: emitted_def)
  next
    case (Some q)
    with Cons.prems r
    have "blocks_loop blocks source_name module' difficulty' (questions @ [q]) = Inr rs"
      by simp
    from Cons.IH [OF this] Some r show ?thesis
      by (simp add: emitted_def)
  qed
qed

lemma blocks_loop_drop:
  "parse_block block source_name module' difficulty' = Inr None \<Longrightarrow>
     blocks_loop (bs1 @ block # bs2) source_name module' difficulty' questions
       = blocks_loop (bs1 @ bs2) source_name module' difficulty' questions"
proof (induction bs1 arbitrary: questions)
  case Nil
  then show ?case by simp
next
  case (Cons b bs1)
  show ?case
  proof (cases "parse_block b source_name module' difficulty'")
    case (Inl e)
    then show ?thesis by simp
  next
    case (Inr r)
    with Cons show ?thesis
      by (cases r) simp_all
  qed
qed

lemma split_blocks_Nil: "split_blocks [] = [[]]"
  unfolding split_blocks_def re_split_def
  by (subst split_from.simps) (simp add: split_re_def)

lemma block_ok_Nil: "block_ok []"
  by (simp add: block_ok_def block_lines_def strip_def)

lemma parse_quiz_text_ok:
  assumes "numbers_short text' source_name"
  shows "\<exists>rs. parse_quiz_text text' source_name = Inr rs"
proof -
  let ?text = "strip (replace [CHR 0x0D, CHR 0x0A] [CHR 0x0A] text')"
  from assms have m: "extract_module source_name = Inr (module_spec source_name)"
    and b: "list_all block_ok (split_blocks ?text)"
    by (simp_all add: numbers_short_def extract_module_ok)
  obtain rs where
    "blocks_loop (split_blocks ?text) source_name (module_spec source_name)
       (extract_difficulty source_name) [] = Inr rs"
    using blocks_loop_ok [OF b] by blast
  with m show ?thesis
    by (simp add: parse_quiz_text_def Let_def)
qed

lemma parse_quiz_text_long:
  assumes "\<not> numbers_short text' source_name"
  shows "parse_quiz_text text' source_name = Inl ValueError"
proof (cases "label_ok source_name")
  case False
  then show ?thesis
    by (simp add: parse_quiz_text_def extract_module_long)
next
  case True
  let ?text = "strip (replace [CHR 0x0D, CHR 0x0A] [CHR 0x0A] text')"
  from True assms have b: "\<not> list_all block_ok (split_blocks ?text)"
    by (simp add: numbers_short_def)
  then have "?text \<noteq> []"
    by (auto simp: split_blocks_Nil block_ok_Nil)
  with True b show ?thesis
    by (simp add: parse_quiz_text_def Let_def extract_module_ok blocks_loop_long)
qed

lemma parse_block_Some:
  assumes "parse_block block source_name module' difficulty' = Inr (Some r)"
  shows "\<exists>sc. scan_lines (block_lines block) = Inr sc \<and> \<not> malformed sc
           \<and> r = q_obj sc source_name module' difficulty'"
  using assms
  by (auto simp: parse_block_def Let_def ebind_eq_Inr split: if_splits)

lemma parse_quiz_text_records:
  assumes "parse_quiz_text text' source_name = Inr rs" and "r \<in> set rs"
  shows "\<exists>block sc. block \<in> set (split_blocks (strip (replace [CHR 0x0D, CHR 0x0A] [CHR 0x0A] text')))
           \<and> scan_lines (block_lines block) = Inr sc \<and> \<not> malformed sc
           \<and> r = q_obj sc source_name (module r) (difficulty r)"
proof -
  let ?text = "strip (replace [CHR 0x0D, CHR 0x0A] [CHR 0x0A] text')"
  from assms(1) obtain m where m: "extract_module source_name = Inr m"
    and rs: "(if ?text = [] then Inr []
              else blocks_loop (split_blocks ?text) source_name m (extract_difficulty source_name) []) = Inr rs"
    by (auto simp: parse_quiz_text_def Let_def ebind_eq_Inr)
  from rs assms(2) have "?text \<noteq> []"
    by (auto split: if_splits)
  with rs have "rs = concat (map (\<lambda>b. emitted b source_name m (extract_difficulty source_name))
                               (split_blocks ?text))"
    using blocks_loop_Inr [of "split_blocks ?text" source_name m "extract_difficulty source_name" "[]" rs]
    by simp
  with assms(2) obtain block where block: "block \<in> set (split_blocks ?text)"
    and "r \<in> set (emitted block source_name m (extract_difficulty source_name))"
    by auto
  then have "parse_block block source_name m (extract_difficulty source_name) = Inr (Some r)"
    by (auto simp: emitted_def split: sum.splits option.splits)
  then obtain sc where sc: "scan_lines (block_lines block) = Inr sc" "\<not> malformed sc"
    "r = q_obj sc source_name m (extract_difficulty source_name)"
    using parse_block_Some by blast
  then have "r = q_obj sc source_name (module r) (difficulty r)"
    by (simp add: q_obj_def)
  with block sc show ?thesis by blast
qed

lemma correct_options:
  "length (filter isCorrect (answerOptions (q_obj sc s m d))) =
     length (filter (\<lambda>opt. Some (fst opt) = answer_letter sc) (options sc))"
  by (simp add: q_obj_def answer_options_def filter_map comp_def)


lemma scan_lines_Inr:
  assumes "scan_lines lines = Inr sc"
  shows "\<exists>qt idx idx' idx'' b. lines \<noteq> []
           \<and> question_line (lines ! 0) = Inr (qnum sc, qt)
           \<and> question_loop lines 1 qt = Inr (idx, question_text sc)
           \<and> options_loop lines idx [] = Inr (idx', options sc)
           \<and> answer_loop lines idx' [idx'..<length lines] = Inr (answer_letter sc, idx'')
           \<and> explanation_loop lines [idx''..<length lines] ([], False) = Inr (explanation sc, b)"
proof -
  have ne: "lines \<noteq> []"
    using assms by (auto simp: scan_lines_def getitem_def)
  with assms show ?thesis
    by (simp add: scan_lines_def ebind_eq_Inr) force
qed

lemma scan_lines_stages:
  assumes "lines \<noteq> []"
    and "question_line (lines ! 0) = Inr (qn, qt)"
    and "question_loop lines 1 qt = Inr (idx, qt')"
    and "options_loop lines idx [] = Inr (idx', opts)"
    and "answer_loop lines idx' [idx'..<length lines] = Inr (al, idx'')"
    and "explanation_loop lines [idx''..<length lines] ([], False) = Inr (ex, b)"
  shows "scan_lines lines = Inr \<lparr>qnum = qn, question_text = qt', options = opts,
           answer_letter = al, explanation = ex\<rparr>"
  using assms by (simp add: scan_lines_def)

lemma options_loop_letters:
  "options_loop lines idx opts = Inr (idx', opts') \<Longrightarrow> list_all (\<lambda>opt. fst opt \<in> letters) opts
     \<Longrightarrow> list_all (\<lambda>opt. fst opt \<in> letters) opts'"
proof (induction "length lines - idx" arbitrary: idx opts rule: less_induct)
  case less
  show ?case
  proof (cases "idx < length lines \<and> truthy (re_match True option_start_re (lines ! idx))")
    case False
    with less.prems show ?thesis
      by (subst (asm) options_loop_step) auto
  next
    case True
    show ?thesis
    proof (cases "re_match True option_re (lines ! idx)")
      case None
      from True have lt: "length lines - (idx + 1) < length lines - idx" by arith
      from less.prems(1) True None have "options_loop lines (idx + 1) opts = Inr (idx', opts')"
        by (subst (asm) options_loop_step) simp
      from less.hyps [OF lt this less.prems(2)] show ?thesis .
    next
      case (Some m)
      obtain j tp where w: "wrap_loop lines (idx + 1) (group m 2) = Inr (j, tp)" "idx + 1 \<le> j"
        using wrap_loop_total by blast
      with True have lt: "length lines - j < length lines - idx" by arith
      from less.prems(1) True Some w
      have step: "options_loop lines j (opts @ [(upper (group m 1), tp)]) = Inr (idx', opts')"
        by (subst (asm) options_loop_step) simp
      from Some obtain x where "snd (snd m) 1 = Some [x]" "in_cls True (Range CHR ''A'' CHR ''D'') x"
        using option_re_letter re_match_Some by blast
      then have "upper (group m 1) \<in> letters"
        using in_AD_upper by (simp add: group_Some letters_def)
      with less.prems(2) have "list_all (\<lambda>opt. fst opt \<in> letters) (opts @ [(upper (group m 1), tp)])"
        by simp
      from less.hyps [OF lt step this] show ?thesis .
    qed
  qed
qed

lemma answer_loop_letter:
  "answer_loop lines idx js = Inr (Some a, j) \<Longrightarrow> a \<in> letters"
proof (induction js)
  case Nil
  then show ?case by simp
next
  case (Cons i js)
  from Cons.prems obtain l where l: "getitem lines i = Inr l"
    by (auto simp: ebind_eq_Inr)
  show ?case
  proof (cases "re_match True answer_re l")
    case None
    with Cons l show ?thesis by simp
  next
    case (Some m)
    with Cons.prems l have a: "a = upper (group m 1)" by simp
    from Some obtain x where "snd (snd m) 1 = Some [x]" "in_cls True (Range CHR ''A'' CHR ''D'') x"
      using answer_re_letter re_match_Some by blast
    then show ?thesis
      unfolding a using in_AD_upper by (simp add: group_Some letters_def)
  qed
qed

lemma answer_loop_None:
  "list_all (\<lambda>i. i < length lines \<and> re_match True answer_re (lines ! i) = None) js
     \<Longrightarrow> answer_loop lines idx js = Inr (None, idx)"
  by (induction js) simp_all

section \<open>The difficulty of a label\<close>

lemma startswith_iff: "startswith s p \<longleftrightarrow> (\<exists>b. s = p @ b)"
proof
  assume "startswith s p"
  then have "s = p @ drop (length p) s"
    unfolding startswith_def by (metis append_take_drop_id)
  then show "\<exists>b. s = p @ b" ..
next
  assume "\<exists>b. s = p @ b"
  then show "startswith s p"
    unfolding startswith_def by auto
qed

lemma contains_iff: "contains p s \<longleftrightarrow> (\<exists>a b. s = a @ p @ b)"
proof (induction s)
  case Nil
  show ?case by auto
next
  case (Cons c cs)
  show ?case
  proof
    assume "contains p (c # cs)"
    then consider "startswith (c # cs) p" | "contains p cs"
      by auto
    then show "\<exists>a b. c # cs = a @ p @ b"
    proof cases
      case 1
      then obtain b where "c # cs = p @ b"
        unfolding startswith_iff by blast
      then have "c # cs = [] @ p @ b" by simp
      then show ?thesis by blast
    next
      case 2
      with Cons obtain a b where "cs = a @ p @ b" by blast
      then have "c # cs = (c # a) @ p @ b" by simp
      then show ?thesis by blast
    qed
  next
    assume "\<exists>a b. c # cs = a @ p @ b"
    then obtain a b where ab: "c # cs = a @ p @ b" by blast
    show "contains p (c # cs)"
    proof (cases a)
      case Nil
      with ab have "startswith (c # cs) p"
        unfolding startswith_iff by auto
      then show ?thesis by simp
    next
      case (Cons x a')
      with ab have "cs = a' @ p @ b" by simp
      then have "contains p cs"
        using Cons.IH by blast
      then show ?thesis by simp
    qed
  qed
qed

text \<open>
  Claim C5, as the specification states it: the difficulty is Hard if the lowercased label
  contains \<open>hard\<close>, else Medium if it contains \<open>medium\<close> or \<open>med\<close> followed by a blank,
  else Easy if it contains \<open>easy\<close>, else Unknown. The label \<open>MD1 TB Med\<close> contains
  none of these, and yet the tagger answers Medium: it has a third test for Medium.
\<close>

theorem difficulty_spec_counterexample:
  "extract_difficulty ''MD1 TB Med'' = ''Medium'' \<and> difficulty_spec ''MD1 TB Med'' = ''Unknown''"
  by (simp add: extract_difficulty_def difficulty_spec_def lower_def lower_chr_def
      startswith_def char_of_def bit_Suc_0_iff)

text \<open>
  Claim C5, amended: the difficulty is Hard iff the lowercased label has the substring
  \<open>hard\<close>; else Medium iff it has one of the substrings \<open>medium\<close>, \<open>med\<close> followed by a
  blank, or \<open>tb med\<close> after a blank; else Easy iff it has the substring \<open>easy\<close>; else
  Unknown. The first rule that applies decides.
\<close>

theorem extract_difficulty_rules:
  "extract_difficulty label =
     (if (\<exists>a b. lower label = a @ ''hard'' @ b) then ''Hard''
      else if (\<exists>a b. lower label = a @ ''medium'' @ b) \<or> (\<exists>a b. lower label = a @ ''med '' @ b)
              \<or> (\<exists>a b. lower label = a @ '' tb med'' @ b) then ''Medium''
      else if (\<exists>a b. lower label = a @ ''easy'' @ b) then ''Easy''
      else ''Unknown'')"
  unfolding extract_difficulty_def Let_def contains_iff ..

section \<open>The module of a label\<close>

lemma decimal_zeros: "decimal (replicate k CHR ''0'' @ ds) = decimal ds"
  by (induction k) (simp_all add: decimal_zero)

lemma length_lower [simp]: "length (lower s) = length s"
  by (simp add: lower_def)

lemma lower_take: "lower (take n s) = take n (lower s)"
  by (simp add: lower_def take_map)

lemma lower_append: "lower (a @ b) = lower a @ lower b"
  by (simp add: lower_def)

lemma keyword_at_start:
  assumes "lower kw = ''md'' \<or> lower kw = ''mod''"
  shows "keyword_at (kw @ t) = Some t"
proof -
  from assms consider (md) "lower kw = ''md''" "length kw = 2"
    | (mod) "lower kw = ''mod''" "length kw = 3"
    by (metis length_lower length_Cons list.size(3) numeral_2_eq_2 numeral_3_eq_3)
  then show ?thesis
  proof cases
    case md
    then show ?thesis
      by (simp add: keyword_at_def lower_take lower_append)
  next
    case mod
    then have "take 2 (lower (kw @ t)) = ''mo''"
      by (simp add: lower_append)
    with mod show ?thesis
      by (simp add: keyword_at_def lower_take lower_append)
  qed
qed

lemma digits_after_blanks:
  assumes "list_all isspace ws" and "ds \<noteq> []" and "list_all isdigit ds"
    and "rest = [] \<or> \<not> isdigit (hd rest)"
  shows "digits_after (ws @ ds @ rest) = ds"
proof -
  from assms(2,3) obtain d ds' where ds: "ds = d # ds'" and d: "isdigit d"
    by (cases ds) auto
  then have "\<not> isspace d"
    using space_not_digit by blast
  then have "dropWhile isspace (ws @ ds @ rest) = ds @ rest"
    using assms(1) by (simp add: ds list_all_iff dropWhile_append2)
  moreover have "takeWhile isdigit (ds @ rest) = ds"
    using assms(3,4) by (cases rest) (auto simp: list_all_iff takeWhile_append2 takeWhile_eq_Nil_iff)
  ultimately show ?thesis
    by (simp add: digits_after_def)
qed

lemma find_pattern_start:
  assumes "lower kw = ''md'' \<or> lower kw = ''mod''" and "list_all isspace ws"
    and "ds \<noteq> []" and "list_all isdigit ds" and "rest = [] \<or> \<not> isdigit (hd rest)"
  shows "find_pattern (kw @ ws @ ds @ rest) = Some ds"
proof -
  have da: "digits_after (ws @ ds @ rest) = ds"
    using assms(2-5) by (rule digits_after_blanks)
  have pa: "pattern_at (kw @ ws @ ds @ rest) = Some ds"
    using assms(3) by (simp add: pattern_at_def keyword_at_start [OF assms(1)] da)
  from assms(1) have "kw \<noteq> []"
    by (auto simp: lower_def)
  then obtain c cs where "kw @ ws @ ds @ rest = c # cs"
    by (cases kw) auto
  with pa show ?thesis
    by (metis find_pattern.simps(2) option.simps(5))
qed

lemma find_pattern_padded:
  assumes "lower kw = ''md'' \<or> lower kw = ''mod''" and "list_all isspace ws"
    and "ds \<noteq> []" and "list_all isdigit ds" and "rest = [] \<or> \<not> isdigit (hd rest)"
  shows "find_pattern (kw @ ws @ replicate k CHR ''0'' @ ds @ rest) = Some (replicate k CHR ''0'' @ ds)"
proof -
  let ?zs = "replicate k CHR ''0'' @ ds"
  have zs: "?zs \<noteq> []" "list_all isdigit ?zs"
    using assms(3,4) by (auto simp: list_all_iff)
  from find_pattern_start [OF assms(1,2) zs assms(5)] show ?thesis
    by simp
qed

text \<open>
  Claim C6, as the specification states it: wherever the pattern is found, the module is
  \<open>MD\<close> followed by the value of the digits. In the label below the pattern is found,
  with 4301 digits, and \<open>int\<close> raises \<open>ValueError\<close> on them: the function returns
  no module.
\<close>

theorem extract_module_rule_counterexample:
  "extract_module (''md '' @ replicate 4301 CHR ''7'') = Inl ValueError
   \<and> find_pattern (''md '' @ replicate 4301 CHR ''7'') = Some (replicate 4301 CHR ''7'')
   \<and> truthy (re_search True module_re (''md '' @ replicate 4301 CHR ''7''))"
proof -
  have k: "lower ''md'' = ''md'' \<or> lower ''md'' = ''mod''"
    by (simp add: lower_md)
  have w: "list_all isspace '' ''"
    by (simp add: isspace_def)
  have d: "replicate 4301 CHR ''7'' \<noteq> []" "list_all isdigit (replicate 4301 CHR ''7'')"
    by (simp_all add: list_all_iff isdigit_def)
  have r: "([]::string) = [] \<or> \<not> isdigit (hd [])"
    by simp
  from find_pattern_start [OF k w d r]
  have f: "find_pattern (''md '' @ replicate 4301 CHR ''7'') = Some (replicate 4301 CHR ''7'')"
    by simp
  have "hd (replicate 4301 CHR ''7'') = CHR ''7''"
    by (rule hd_replicate) simp
  then have c: "captured (replicate 4301 CHR ''7'') = replicate 4301 CHR ''7''"
    by (simp add: captured_def)
  have "extract_module (''md '' @ replicate 4301 CHR ''7'') = Inl ValueError"
    unfolding extract_module_cases [of "''md '' @ replicate 4301 CHR ''7''"] f
    by (simp add: c int_max_str_digits_def)
  moreover from f search_module_re [of "''md '' @ replicate 4301 CHR ''7''" 0]
  obtain m where "search_from True module_re 0 (''md '' @ replicate 4301 CHR ''7'') = Some m"
    by blast
  then have "truthy (re_search True module_re (''md '' @ replicate 4301 CHR ''7''))"
    by (simp only: re_search_def truthy_def option.case)
  ultimately show ?thesis
    using f by blast
qed

text \<open>
  Claim C6, amended: the module of a label is found without regard to the case of the
  letters and to leading zeros. Where the pattern (\<open>md\<close> or \<open>mod\<close>, blanks or none, an
  optional zero, digits) is found, leftmost, and the group of the pattern holds at most
  \<open>int_max_str_digits\<close> digits, the module is \<open>MD\<close> followed by the value of the
  digits; where the group holds more digits, \<open>int\<close> raises \<open>ValueError\<close>; where the
  pattern is not found, the module is \<open>Other\<close>. A label that begins with the keyword in
  any case, then blanks, then zeros before its digits, no more than the bound in all,
  gives the module of the digits alone.
\<close>

theorem extract_module_rule:
  "extract_module label =
     (case find_pattern label of
        None \<Rightarrow> Inr ''Other''
      | Some ds \<Rightarrow> if length (captured ds) \<le> int_max_str_digits
                   then Inr (''MD'' @ str_of_int (decimal ds)) else Inl ValueError)
   \<and> ((lower kw = ''md'' \<or> lower kw = ''mod'') \<and> list_all isspace ws \<and> ds \<noteq> []
        \<and> list_all isdigit ds \<and> (rest = [] \<or> \<not> isdigit (hd rest))
        \<and> k + length ds \<le> int_max_str_digits \<longrightarrow>
      extract_module (kw @ ws @ replicate k CHR ''0'' @ ds @ rest)
        = Inr (''MD'' @ str_of_int (decimal ds)))"
proof (intro conjI impI)
  show "extract_module label =
     (case find_pattern label of
        None \<Rightarrow> Inr ''Other''
      | Some ds \<Rightarrow> if length (captured ds) \<le> int_max_str_digits
                   then Inr (''MD'' @ str_of_int (decimal ds)) else Inl ValueError)"
    by (rule extract_module_cases)
next
  assume a: "(lower kw = ''md'' \<or> lower kw = ''mod'') \<and> list_all isspace ws \<and> ds \<noteq> []
        \<and> list_all isdigit ds \<and> (rest = [] \<or> \<not> isdigit (hd rest))
        \<and> k + length ds \<le> int_max_str_digits"
  let ?zs = "replicate k CHR ''0'' @ ds"
  from a have f: "find_pattern (kw @ ws @ replicate k CHR ''0'' @ ds @ rest) = Some ?zs"
    by (intro find_pattern_padded) simp_all
  from a have zs: "?zs \<noteq> []" "list_all isdigit ?zs"
    by (auto simp: list_all_iff)
  from captured_digits(4) [OF zs] a have "length (captured ?zs) \<le> int_max_str_digits"
    by simp
  then show "extract_module (kw @ ws @ replicate k CHR ''0'' @ ds @ rest)
               = Inr (''MD'' @ str_of_int (decimal ds))"
    by (simp add: extract_module_cases f decimal_zeros)
qed

text \<open>
  Claim C6, amended, on the labels \<open>MD1\<close>, \<open>md 01\<close> and \<open>Mod001\<close>, which all give
  \<open>MD1\<close>, and on a label without the pattern.
\<close>

theorem extract_module_rule_witness:
  "extract_module ''MD1'' = Inr ''MD1'' \<and> extract_module ''md 01'' = Inr ''MD1''
   \<and> extract_module ''Mod001'' = Inr ''MD1'' \<and> extract_module ''Misc Review'' = Inr ''Other''"
proof -
  have v: "''MD'' @ str_of_int (decimal ''1'') = ''MD1''"
    by code_simp
  have d: "''1'' \<noteq> []" "list_all isdigit ''1''" "list_all isspace []" "list_all isspace '' ''"
    by (simp_all add: isdigit_def isspace_def)
  have r: "([]::string) = [] \<or> \<not> isdigit (hd [])"
    by simp
  have b: "0 + length ''1'' \<le> int_max_str_digits" "1 + length ''1'' \<le> int_max_str_digits"
    "2 + length ''1'' \<le> int_max_str_digits"
    by (simp_all add: int_max_str_digits_def)
  have k1: "lower ''MD'' = ''md'' \<or> lower ''MD'' = ''mod''"
    by (simp add: lower_def lower_chr_def char_of_def bit_Suc_0_iff)
  have k2: "lower ''md'' = ''md'' \<or> lower ''md'' = ''mod''"
    by (simp add: lower_def lower_chr_def)
  have k3: "lower ''Mod'' = ''md'' \<or> lower ''Mod'' = ''mod''"
    by (simp add: lower_def lower_chr_def char_of_def bit_Suc_0_iff)
  have 1: "extract_module (''MD'' @ [] @ replicate 0 CHR ''0'' @ ''1'' @ []) = Inr ''MD1''"
    using extract_module_rule [of "[]" "''MD''" "[]" "''1''" "[]" 0] k1 d r v b by simp
  have 2: "extract_module (''md'' @ '' '' @ replicate 1 CHR ''0'' @ ''1'' @ []) = Inr ''MD1''"
    using extract_module_rule [of "[]" "''md''" "'' ''" "''1''" "[]" 1] k2 d r v b by simp
  have 3: "extract_module (''Mod'' @ [] @ replicate 2 CHR ''0'' @ ''1'' @ []) = Inr ''MD1''"
    using extract_module_rule [of "[]" "''Mod''" "[]" "''1''" "[]" 2] k3 d r v b by simp
  have 4: "extract_module ''Misc Review'' = Inr ''Other''"
    by code_simp
  from 1 2 3 4 show ?thesis
    by (simp add: numeral_2_eq_2)
qed

section \<open>The records of a text\<close>

lemma letters_nonempty: "a \<in> letters \<Longrightarrow> a \<noteq> []"
  by (auto simp: letters_def)

text \<open>
  Claim C1, as the specification states it: every record that the parser emits has exactly
  one option with \<open>isCorrect\<close> true, whatever the text. A block whose answer line names
  the letter C, with the options A and B only, gives a record with no correct option.
\<close>

theorem one_correct_counterexample:
  "parse_quiz_text (''Q1. x'' @ [CHR 0x0A] @ ''A. y'' @ [CHR 0x0A] @ ''B. z'' @ [CHR 0x0A] @ ''Answer: C'') ''L''
     = Inr [\<lparr>question = ''x'', hint = [],
             answerOptions = [\<lparr>text = ''y'', isCorrect = False, rationale = []\<rparr>,
                              \<lparr>text = ''z'', isCorrect = False, rationale = []\<rparr>],
             source = ''L'', module = ''Other'', difficulty = ''Unknown'',
             questionNumber = Some 1\<rparr>]
   \<and> length (filter isCorrect [\<lparr>text = ''y'', isCorrect = False, rationale = []\<rparr>,
                                  \<lparr>text = ''z'', isCorrect = False, rationale = []\<rparr>]) = 0"
  by code_simp

text \<open>
  Claim C1, amended: in every record that the parser emits, the number of options with
  \<open>isCorrect\<close> true is the number of consumed options whose letter is the captured
  answer letter; so it is exactly one when exactly one consumed option carries that
  letter. The record comes from one block of the text, and \<open>sc\<close> is what the scan of
  that block found.
\<close>

theorem correct_count:
  assumes "parse_quiz_text text' source_name = Inr rs" and "r \<in> set rs"
  shows "\<exists>block sc.
           block \<in> set (split_blocks (strip (replace [CHR 0x0D, CHR 0x0A] [CHR 0x0A] text')))
           \<and> scan_lines (block_lines block) = Inr sc
           \<and> r = q_obj sc source_name (module r) (difficulty r)
           \<and> length (filter isCorrect (answerOptions r)) =
               length (filter (\<lambda>opt. Some (fst opt) = answer_letter sc) (options sc))"
proof -
  from parse_quiz_text_records [OF assms] obtain block sc where
    b: "block \<in> set (split_blocks (strip (replace [CHR 0x0D, CHR 0x0A] [CHR 0x0A] text')))"
    and sc: "scan_lines (block_lines block) = Inr sc"
    and r: "r = q_obj sc source_name (module r) (difficulty r)"
    by blast
  have "length (filter isCorrect (answerOptions r)) =
          length (filter (\<lambda>opt. Some (fst opt) = answer_letter sc) (options sc))"
    by (subst r) (rule correct_options)
  with b sc r show ?thesis by blast
qed

text \<open>Claim C1, amended, on a text of one block with the options A and B and the answer B.\<close>

theorem correct_count_witness:
  "\<exists>block sc.
     block \<in> set (split_blocks (strip (replace [CHR 0x0D, CHR 0x0A] [CHR 0x0A]
        (''Q1. x'' @ [CHR 0x0A] @ ''A. y'' @ [CHR 0x0A] @ ''B. z'' @ [CHR 0x0A] @ ''Answer: B''))))
     \<and> scan_lines (block_lines block) = Inr sc
     \<and> \<lparr>question = ''x'', hint = [],
             answerOptions = [\<lparr>text = ''y'', isCorrect = False, rationale = []\<rparr>,
                              \<lparr>text = ''z'', isCorrect = True, rationale = []\<rparr>],
             source = ''L'', module = ''Other'', difficulty = ''Unknown'',
             questionNumber = Some 1\<rparr> = q_obj sc ''L'' ''Other'' ''Unknown''
     \<and> length (filter (\<lambda>opt. Some (fst opt) = answer_letter sc) (options sc)) = 1"
proof -
  let ?r = "\<lparr>question = ''x'', hint = [],
             answerOptions = [\<lparr>text = ''y'', isCorrect = False, rationale = []\<rparr>,
                              \<lparr>text = ''z'', isCorrect = True, rationale = []\<rparr>],
             source = ''L'', module = ''Other'', difficulty = ''Unknown'',
             questionNumber = Some 1\<rparr>"
  have h: "parse_quiz_text (''Q1. x'' @ [CHR 0x0A] @ ''A. y'' @ [CHR 0x0A] @ ''B. z'' @ [CHR 0x0A] @ ''Answer: B'') ''L''
     = Inr [?r]"
    by code_simp
  have m: "?r \<in> set [?r]" by simp
  from correct_count [OF h m] obtain block sc where
    b: "block \<in> set (split_blocks (strip (replace [CHR 0x0D, CHR 0x0A] [CHR 0x0A]
        (''Q1. x'' @ [CHR 0x0A] @ ''A. y'' @ [CHR 0x0A] @ ''B. z'' @ [CHR 0x0A] @ ''Answer: B''))))"
    and sc: "scan_lines (block_lines block) = Inr sc"
    and r: "?r = q_obj sc ''L'' (module ?r) (difficulty ?r)"
    and c: "length (filter isCorrect (answerOptions ?r)) =
              length (filter (\<lambda>opt. Some (fst opt) = answer_letter sc) (options sc))"
    by blast
  from r have r': "?r = q_obj sc ''L'' ''Other'' ''Unknown''"
    by simp
  from c have c': "length (filter (\<lambda>opt. Some (fst opt) = answer_letter sc) (options sc)) = 1"
    by simp
  from b sc r' c' show ?thesis
    by blast
qed


text \<open>
  Claim C2: a block that yields at least one option, and whose first matched answer line
  carries the letter of exactly one consumed option, gives exactly one record, and exactly
  one option of that record has \<open>isCorrect\<close> true.
\<close>

theorem well_formed_block:
  assumes "scan_lines (block_lines block) = Inr sc"
    and "options sc \<noteq> []"
    and "answer_letter sc = Some a"
    and "length (filter (\<lambda>opt. fst opt = a) (options sc)) = 1"
  shows "\<exists>r. parse_block block source_name module' difficulty' = Inr (Some r)
           \<and> blocks_loop [block] source_name module' difficulty' [] = Inr [r]
           \<and> length (filter isCorrect (answerOptions r)) = 1"
proof -
  from scan_lines_Inr [OF assms(1)] obtain idx' idx'' where
    ne: "block_lines block \<noteq> []"
    and "answer_loop (block_lines block) idx' [idx'..<length (block_lines block)]
           = Inr (answer_letter sc, idx'')"
    by blast
  then have "a \<in> letters"
    using assms(3) answer_loop_letter by simp
  then have "a \<noteq> []"
    by (rule letters_nonempty)
  with assms(2,3) have "\<not> malformed sc"
    by (simp add: malformed_def)
  with ne assms(1)
  have pb: "parse_block block source_name module' difficulty'
              = Inr (Some (q_obj sc source_name module' difficulty'))"
    by (simp add: parse_block_def)
  have "length (filter isCorrect (answerOptions (q_obj sc source_name module' difficulty'))) = 1"
    using assms(3,4) by (simp add: correct_options)
  with pb show ?thesis
    by simp
qed

text \<open>Claim C2 on a block with the options A and B and the answer B.\<close>

theorem well_formed_block_witness:
  "\<exists>r. parse_block (''Q1. x'' @ [CHR 0x0A] @ ''A. y'' @ [CHR 0x0A] @ ''B. z'' @ [CHR 0x0A] @ ''Answer: B'')
           ''L'' ''Other'' ''Unknown'' = Inr (Some r)
       \<and> blocks_loop [''Q1. x'' @ [CHR 0x0A] @ ''A. y'' @ [CHR 0x0A] @ ''B. z'' @ [CHR 0x0A] @ ''Answer: B'']
           ''L'' ''Other'' ''Unknown'' [] = Inr [r]
       \<and> length (filter isCorrect (answerOptions r)) = 1"
proof -
  let ?sc = "\<lparr>qnum = Some 1, question_text = ''x'', options = [(''A'', ''y''), (''B'', ''z'')],
              answer_letter = Some ''B'', explanation = []\<rparr>"
  have h1: "scan_lines (block_lines
      (''Q1. x'' @ [CHR 0x0A] @ ''A. y'' @ [CHR 0x0A] @ ''B. z'' @ [CHR 0x0A] @ ''Answer: B'')) = Inr ?sc"
    by code_simp
  have h2: "options ?sc \<noteq> []" by simp
  have h3: "answer_letter ?sc = Some ''B''" by simp
  have h4: "length (filter (\<lambda>opt. fst opt = ''B'') (options ?sc)) = 1" by simp
  show ?thesis
    by (rule well_formed_block [OF h1 h2 h3 h4])
qed

text \<open>
  Claim C3, as the specification states it: every record has between one and four options,
  with letters among A, B, C, D and no letter twice. A block with the option lines A, B,
  C, D and A again gives a record with five options, two of them with the letter A.
\<close>

theorem option_letters_counterexample:
  "parse_quiz_text (''Q1. x'' @ [CHR 0x0A] @ ''A. a'' @ [CHR 0x0A] @ ''B. b'' @ [CHR 0x0A] @ ''C. c''
       @ [CHR 0x0A] @ ''D. d'' @ [CHR 0x0A] @ ''A. e'' @ [CHR 0x0A] @ ''Answer: A'') ''L''
     = Inr [\<lparr>question = ''x'', hint = [],
             answerOptions = [\<lparr>text = ''a'', isCorrect = True, rationale = []\<rparr>,
                              \<lparr>text = ''b'', isCorrect = False, rationale = []\<rparr>,
                              \<lparr>text = ''c'', isCorrect = False, rationale = []\<rparr>,
                              \<lparr>text = ''d'', isCorrect = False, rationale = []\<rparr>,
                              \<lparr>text = ''e'', isCorrect = True, rationale = []\<rparr>],
             source = ''L'', module = ''Other'', difficulty = ''Unknown'',
             questionNumber = Some 1\<rparr>]
   \<and> scan_lines (block_lines (''Q1. x'' @ [CHR 0x0A] @ ''A. a'' @ [CHR 0x0A] @ ''B. b'' @ [CHR 0x0A] @ ''C. c''
       @ [CHR 0x0A] @ ''D. d'' @ [CHR 0x0A] @ ''A. e'' @ [CHR 0x0A] @ ''Answer: A''))
     = Inr \<lparr>qnum = Some 1, question_text = ''x'',
            options = [(''A'', ''a''), (''B'', ''b''), (''C'', ''c''), (''D'', ''d''), (''A'', ''e'')],
            answer_letter = Some ''A'', explanation = []\<rparr>"
  by code_simp

text \<open>
  Claim C3, amended: every record that the parser emits has at least one option, one for
  each consumed option, and the letter of each consumed option is one of A, B, C, D.
  Nothing bounds the number of options from above and a letter may come twice.
\<close>

theorem option_letters:
  assumes "parse_quiz_text text' source_name = Inr rs" and "r \<in> set rs"
  shows "\<exists>block sc.
           block \<in> set (split_blocks (strip (replace [CHR 0x0D, CHR 0x0A] [CHR 0x0A] text')))
           \<and> scan_lines (block_lines block) = Inr sc
           \<and> r = q_obj sc source_name (module r) (difficulty r)
           \<and> 1 \<le> length (answerOptions r)
           \<and> length (answerOptions r) = length (options sc)
           \<and> list_all (\<lambda>opt. fst opt \<in> letters) (options sc)"
proof -
  from parse_quiz_text_records [OF assms] obtain block sc where
    b: "block \<in> set (split_blocks (strip (replace [CHR 0x0D, CHR 0x0A] [CHR 0x0A] text')))"
    and sc: "scan_lines (block_lines block) = Inr sc"
    and wf: "\<not> malformed sc"
    and r: "r = q_obj sc source_name (module r) (difficulty r)"
    by blast
  from r have len: "length (answerOptions r) = length (options sc)"
    by (metis (no_types, lifting) q_obj_def answer_options_def length_map
        question_record.select_convs(3))
  from wf have "options sc \<noteq> []"
    by (simp add: malformed_def)
  with len have one: "1 \<le> length (answerOptions r)"
    by (cases "options sc") simp_all
  from scan_lines_Inr [OF sc] obtain idx idx' where
    "options_loop (block_lines block) idx [] = Inr (idx', options sc)"
    by blast
  then have "list_all (\<lambda>opt. fst opt \<in> letters) (options sc)"
    by (rule options_loop_letters) simp
  with b sc r one len show ?thesis
    by blast
qed

text \<open>Claim C3, amended, on a text of one block with the options A and B.\<close>

theorem option_letters_witness:
  "\<exists>block sc.
     block \<in> set (split_blocks (strip (replace [CHR 0x0D, CHR 0x0A] [CHR 0x0A]
        (''Q1. x'' @ [CHR 0x0A] @ ''A. y'' @ [CHR 0x0A] @ ''B. z'' @ [CHR 0x0A] @ ''Answer: B''))))
     \<and> scan_lines (block_lines block) = Inr sc
     \<and> length (options sc) = 2
     \<and> list_all (\<lambda>opt. fst opt \<in> letters) (options sc)"
proof -
  let ?r = "\<lparr>question = ''x'', hint = [],
             answerOptions = [\<lparr>text = ''y'', isCorrect = False, rationale = []\<rparr>,
                              \<lparr>text = ''z'', isCorrect = True, rationale = []\<rparr>],
             source = ''L'', module = ''Other'', difficulty = ''Unknown'',
             questionNumber = Some 1\<rparr>"
  have h: "parse_quiz_text (''Q1. x'' @ [CHR 0x0A] @ ''A. y'' @ [CHR 0x0A] @ ''B. z'' @ [CHR 0x0A] @ ''Answer: B'') ''L''
     = Inr [?r]"
    by code_simp
  have m: "?r \<in> set [?r]" by simp
  from option_letters [OF h m] obtain block sc where
    b: "block \<in> set (split_blocks (strip (replace [CHR 0x0D, CHR 0x0A] [CHR 0x0A]
        (''Q1. x'' @ [CHR 0x0A] @ ''A. y'' @ [CHR 0x0A] @ ''B. z'' @ [CHR 0x0A] @ ''Answer: B''))))"
    and sc: "scan_lines (block_lines block) = Inr sc"
    and len: "length (answerOptions ?r) = length (options sc)"
    and l: "list_all (\<lambda>opt. fst opt \<in> letters) (options sc)"
    by blast
  from len have "length (options sc) = 2"
    by simp
  with b sc l show ?thesis
    by blast
qed

section \<open>The explanation of a block\<close>

lemma explanation_loop_append:
  "list_all (\<lambda>i. i < length lines) js \<Longrightarrow>
     explanation_loop lines (js @ js') st = ebind (explanation_loop lines js st) (explanation_loop lines js')"
proof (induction js arbitrary: st)
  case Nil
  show ?case by simp
next
  case (Cons j js)
  obtain e b where st: "st = (e, b)" by (cases st)
  from Cons show ?case
    unfolding st by simp
qed

lemma explanation_loop_started:
  "list_all (\<lambda>i. i < length lines \<and> \<not> startswith (lower (lines ! i)) ''explanation:'') js \<Longrightarrow>
     explanation_loop lines js (e, True) = Inr (e @ concat (map (\<lambda>i. '' '' @ lines ! i) js), True)"
  by (induction js arbitrary: e) simp_all

lemma nth_segment:
  "map (\<lambda>i. f ((pre @ l # post) ! i)) [Suc (length pre)..<length (pre @ l # post)] = map f post"
proof (rule nth_equalityI)
  show "length (map (\<lambda>i. f ((pre @ l # post) ! i)) [Suc (length pre)..<length (pre @ l # post)])
          = length (map f post)"
    by (simp only: length_map length_upt length_append length_Cons)
next
  fix i
  assume "i < length (map (\<lambda>i. f ((pre @ l # post) ! i)) [Suc (length pre)..<length (pre @ l # post)])"
  then have i: "i < length post" by (simp del: upt_Suc)
  then have "(pre @ l # post) ! (Suc (length pre) + i) = post ! i"
    by (simp add: nth_append)
  with i show "map (\<lambda>i. f ((pre @ l # post) ! i)) [Suc (length pre)..<length (pre @ l # post)] ! i
          = map f post ! i"
    by (simp del: upt_Suc)
qed

lemma upt_split3: "i \<le> n \<Longrightarrow> n < m \<Longrightarrow> [i..<m] = [i..<n] @ n # [Suc n..<m]"
  by (metis le_add_diff_inverse less_imp_le_nat upt_add_eq_append upt_conv_Cons)

text \<open>
  Claim C4, as the specification states it: the explanation is the first explanation line,
  without its tag, joined with all the lines that follow it in the block. With two
  explanation lines after the answer, the scan keeps the second one only.
\<close>

theorem explanation_spec_counterexample:
  "explanation_loop [''Q1. x'', ''A. y'', ''Answer: A'', ''Explanation: foo'', ''Explanation: bar'']
       [3..<5] ([], False) = Inr (''bar'', True)
   \<and> scan_lines [''Q1. x'', ''A. y'', ''Answer: A'', ''Explanation: foo'', ''Explanation: bar'']
       = Inr \<lparr>qnum = Some 1, question_text = ''x'', options = [(''A'', ''y'')],
              answer_letter = Some ''A'', explanation = ''bar''\<rparr>
   \<and> explanation_spec (drop 3 [''Q1. x'', ''A. y'', ''Answer: A'', ''Explanation: foo'', ''Explanation: bar''])
       = ''foo Explanation: bar''"
  by code_simp

text \<open>
  Claim C4, amended: a line that starts with \<open>explanation:\<close> starts the capture anew,
  and every later line that does not start with \<open>explanation:\<close> is appended after a
  blank, up to the end of the block. So the explanation is the last explanation line at
  or after the place where the scan begins, without its tag, joined with all the lines
  that follow it.
\<close>

theorem explanation_last_line:
  assumes "lines = pre @ l # post"
    and "idx \<le> length pre"
    and "startswith (lower l) ''explanation:''"
    and "list_all (\<lambda>x. \<not> startswith (lower x) ''explanation:'') post"
  shows "explanation_loop lines [idx..<length lines] ([], False)
           = Inr (re_sub True explanation_re [] l @ concat (map (\<lambda>x. '' '' @ x) post), True)"
proof -
  let ?n = "length pre"
  have split: "[idx..<length lines] = [idx..<?n] @ ?n # [Suc ?n..<length lines]"
    using assms(1,2) by (intro upt_split3) simp_all
  have in1: "list_all (\<lambda>i. i < length lines) [idx..<?n]"
    using assms(1) by (simp add: list_all_iff)
  obtain e b where first: "explanation_loop lines [idx..<?n] ([], False) = Inr (e, b)"
    using explanation_loop_total [OF in1] by (metis surj_pair)
  have at: "getitem lines ?n = Inr l"
    using assms(1) by (simp add: getitem_def)
  have rest_ok: "list_all (\<lambda>i. i < length lines \<and> \<not> startswith (lower (lines ! i)) ''explanation:'')
                   [Suc ?n..<length lines]"
    unfolding list_all_iff
  proof
    fix i
    assume "i \<in> set [Suc ?n..<length lines]"
    then have i: "Suc ?n \<le> i" "i < length lines" by simp_all
    then have "i - Suc ?n < length post"
      using assms(1) by simp
    moreover from i have "lines ! i = post ! (i - Suc ?n)"
      unfolding assms(1) by (simp add: nth_append)
    ultimately have "lines ! i \<in> set post"
      by simp
    with assms(4) have "\<not> startswith (lower (lines ! i)) ''explanation:''"
      by (simp add: list_all_iff)
    with i show "i < length lines \<and> \<not> startswith (lower (lines ! i)) ''explanation:''"
      by simp
  qed
  have texts: "map (\<lambda>i. '' '' @ lines ! i) [Suc ?n..<length lines] = map (\<lambda>x. '' '' @ x) post"
    unfolding assms(1) by (rule nth_segment)
  have "explanation_loop lines [idx..<length lines] ([], False)
          = explanation_loop lines (?n # [Suc ?n..<length lines]) (e, b)"
    unfolding split by (simp add: explanation_loop_append [OF in1] first)
  also have "\<dots> = explanation_loop lines [Suc ?n..<length lines] (re_sub True explanation_re [] l, True)"
    using at assms(3) by simp
  also have "\<dots> = Inr (re_sub True explanation_re [] l
                        @ concat (map (\<lambda>i. '' '' @ lines ! i) [Suc ?n..<length lines]), True)"
    by (rule explanation_loop_started [OF rest_ok])
  finally show ?thesis
    by (simp only: texts)
qed

text \<open>Claim C4, amended, on six lines with two explanation lines and one line after them.\<close>

theorem explanation_last_line_witness:
  "explanation_loop [''Q1. x'', ''A. y'', ''Answer: A'', ''Explanation: foo'', ''Explanation: bar'', ''baz'']
       [3..<length [''Q1. x'', ''A. y'', ''Answer: A'', ''Explanation: foo'', ''Explanation: bar'', ''baz'']]
       ([], False)
     = Inr (re_sub True explanation_re [] ''Explanation: bar'' @ concat (map (\<lambda>x. '' '' @ x) [''baz'']), True)
   \<and> re_sub True explanation_re [] ''Explanation: bar'' @ concat (map (\<lambda>x. '' '' @ x) [''baz'']) = ''bar baz''"
proof -
  have h1: "[''Q1. x'', ''A. y'', ''Answer: A'', ''Explanation: foo'', ''Explanation: bar'', ''baz'']
      = [''Q1. x'', ''A. y'', ''Answer: A'', ''Explanation: foo''] @ ''Explanation: bar'' # [''baz'']"
    by simp
  have h2: "3 \<le> length [''Q1. x'', ''A. y'', ''Answer: A'', ''Explanation: foo'']"
    by simp
  have h3: "startswith (lower ''Explanation: bar'') ''explanation:''"
    by code_simp
  have h4: "list_all (\<lambda>x. \<not> startswith (lower x) ''explanation:'') [''baz'']"
    by code_simp
  have v: "re_sub True explanation_re [] ''Explanation: bar'' @ concat (map (\<lambda>x. '' '' @ x) [''baz'']) = ''bar baz''"
    by code_simp
  from explanation_last_line [OF h1 h2 h3 h4] v show ?thesis
    by blast
qed

section \<open>The wrapped lines of an option\<close>

lemma in_cls_AnyChar_all: "CHR 0x0A \<notin> set s \<Longrightarrow> takeWhile (in_cls ic AnyChar) s = s"
  by (induction s) auto

lemma rest_of_line:
  assumes "CHR 0x0A \<notin> set s"
  shows "\<exists>rest. ms ic (Seqs [Group k (Star (Cls AnyChar)), Eol]) (p, s, g)
           = (p + length s, [], g(k \<mapsto> s)) # rest"
proof -
  have tw: "takeWhile (in_cls ic AnyChar) s = s"
    using assms by (rule in_cls_AnyChar_all)
  then have dw: "dropWhile (in_cls ic AnyChar) s = []"
    by (metis takeWhile_dropWhile_id self_append_conv)
  have star: "ms ic (Star (Cls AnyChar)) (p, s, g)
     = (p + length s, [], g) # map (\<lambda>j. (p + j, drop j s, g)) (rev [0..<length s])"
    by (subst ms_Star_Cls_Cons) (simp only: tw dw)
  have grp: "ms ic (Group k (Star (Cls AnyChar))) (p, s, g)
     = (p + length s, [], g(k \<mapsto> s))
       # map (\<lambda>(p', s', g'). (p', s', g'(k \<mapsto> take (p' - p) s)))
           (map (\<lambda>j. (p + j, drop j s, g)) (rev [0..<length s]))"
    by (simp add: star del: ms.simps(6))
  show ?thesis
    by (simp add: grp ms_Seq_Eps del: ms.simps(6,7))
qed

lemma ms_Group_Cls:
  "ms ic (Group n (Cls k)) (p, x # xs, g) = (if in_cls ic k x then [(Suc p, xs, g(n \<mapsto> [x]))] else [])"
  by simp

lemma option_start_line:
  "truthy (re_match True option_start_re l) \<longleftrightarrow>
     (\<exists>c rest. l = c # CHR ''.'' # rest \<and> in_cls True (Range CHR ''A'' CHR ''D'') c)"
proof (cases l)
  case Nil
  then show ?thesis
    by (simp add: truthy_def re_match_def option_start_re_def)
next
  case l: (Cons c t)
  show ?thesis
  proof (cases t)
    case Nil
    with l show ?thesis
      by (simp add: truthy_def re_match_def option_start_re_def)
  next
    case (Cons d rest)
    with l show ?thesis
      by (simp add: truthy_def re_match_def option_start_re_def)
  qed
qed

lemma option_re_line:
  assumes "CHR 0x0A \<notin> set l" and "truthy (re_match True option_start_re l)"
  shows "\<exists>m. re_match True option_re l = Some m \<and> group m 1 = [hd l]
           \<and> group m 2 = dropWhile isspace (drop 2 l)"
proof -
  from assms(2) obtain c rest where l: "l = c # CHR ''.'' # rest"
    and c: "in_cls True (Range CHR ''A'' CHR ''D'') c"
    unfolding option_start_line by blast
  let ?g = "Map.empty(1 \<mapsto> [c])"
  let ?tail = "Seqs [Group 2 (Star (Cls AnyChar)), Eol]"
  let ?n = "length (takeWhile isspace rest)"
  let ?w = "dropWhile isspace rest"
  have "CHR 0x0A \<notin> set ?w"
    using assms(1) unfolding l by (auto dest: set_dropWhileD)
  from rest_of_line [OF this, of True 2 "Suc (Suc 0) + ?n" ?g] obtain more where
    tail: "ms True ?tail (Suc (Suc 0) + ?n, ?w, ?g) = (Suc (Suc 0) + ?n + length ?w, [], ?g(2 \<mapsto> ?w)) # more"
    by blast
  have front: "ms True option_re (0, l, Map.empty)
      = concat (map (ms True ?tail) (ms True (Star (Cls Space)) (Suc (Suc 0), rest, ?g)))"
    unfolding l option_re_def using c by (simp add: ms_Group_Cls del: ms.simps(6,7) in_cls.simps)
  have "\<exists>more'. ms True option_re (0, l, Map.empty)
          = (Suc (Suc 0) + ?n + length ?w, [], ?g(2 \<mapsto> ?w)) # more'"
    unfolding front ms_Star_Cls_Cons in_cls_Space using tail by simp
  then obtain more' where "ms True option_re (0, l, Map.empty)
          = (Suc (Suc 0) + ?n + length ?w, [], ?g(2 \<mapsto> ?w)) # more'"
    by blast
  then have "re_match True option_re l = Some (Suc (Suc 0) + ?n + length ?w, [], ?g(2 \<mapsto> ?w))"
    by (simp add: re_match_def)
  then show ?thesis
    by (simp add: group_def l)
qed


lemma split_chr_no_sep: "w \<in> set (split_chr sep s) \<Longrightarrow> sep \<notin> set w"
proof (induction s arbitrary: w)
  case Nil
  then show ?case by simp
next
  case (Cons c cs)
  show ?case
  proof (cases "c = sep")
    case True
    with Cons show ?thesis by auto
  next
    case False
    show ?thesis
    proof (cases "split_chr sep cs")
      case Nil
      with False Cons.prems show ?thesis by simp
    next
      case (Cons v vs)
      with False Cons.prems have "w = c # v \<or> w \<in> set vs" by simp
      then show ?thesis
        using False Cons Cons.IH by auto
    qed
  qed
qed

lemma set_strip: "set (strip s) \<subseteq> set s"
  unfolding strip_def by (auto dest!: set_dropWhileD)

lemma block_lines_no_newline: "l \<in> set (block_lines block) \<Longrightarrow> CHR 0x0A \<notin> set l"
  unfolding block_lines_def using split_chr_no_sep set_strip by fastforce

lemma wrap_loop_run:
  assumes "lines = a @ conts @ rest"
    and "list_all continues conts"
    and "rest = [] \<or> \<not> continues (hd rest)"
  shows "wrap_loop lines (length a) tp
           = Inr (length a + length conts, tp @ concat (map (\<lambda>x. '' '' @ x) conts))"
  using assms
proof (induction conts arbitrary: a tp)
  case Nil
  show ?case
  proof (cases rest)
    case Nil
    with Nil.prems(1) show ?thesis
      by (subst wrap_loop_step) simp
  next
    case (Cons r rs)
    with Nil.prems have "lines ! length a = r" "\<not> continues r"
      by simp_all
    then show ?thesis
      by (subst wrap_loop_step) (auto simp: continues_def)
  qed
next
  case (Cons c cs)
  from Cons.prems(1) have at: "length a < length lines" "lines ! length a = c"
    by simp_all
  from Cons.prems(2) have c: "continues c" and cs: "list_all continues cs"
    by simp_all
  from Cons.prems(1) have l': "lines = (a @ [c]) @ cs @ rest"
    by simp
  have "wrap_loop lines (length a) tp = wrap_loop lines (length a + 1) (tp @ '' '' @ c)"
    using at c by (subst wrap_loop_step) (simp add: continues_def)
  also have "\<dots> = Inr (length (a @ [c]) + length cs, (tp @ '' '' @ c) @ concat (map (\<lambda>x. '' '' @ x) cs))"
    using Cons.IH [OF l' cs Cons.prems(3), of "tp @ '' '' @ c"] by simp
  finally show ?case
    by simp
qed

lemma blank_append: "(@) '' '' = (#) CHR '' ''"
  by (rule ext) simp

text \<open>
  Claim C10, as stated: once an option has been consumed, any later line that is neither
  an option line nor starts with \<open>answer:\<close> or \<open>explanation:\<close> is appended to the
  text of the most recent option. In the block below the line \<open>stray\<close> is such a line,
  it comes after the option A and before the answer line, and the text of the option A
  is \<open>y\<close> all the same: the line before \<open>stray\<close> starts with \<open>explanation:\<close> and has
  ended the options.
\<close>

theorem option_continuation_counterexample:
  "scan_lines (block_lines (''Q1. x'' @ [CHR 0x0A] @ ''A. y'' @ [CHR 0x0A] @ ''Explanation: foo''
        @ [CHR 0x0A] @ ''stray'' @ [CHR 0x0A] @ ''Answer: A''))
     = Inr \<lparr>qnum = Some 1, question_text = ''x'', options = [(''A'', ''y'')],
            answer_letter = Some ''A'', explanation = []\<rparr>
   \<and> block_lines (''Q1. x'' @ [CHR 0x0A] @ ''A. y'' @ [CHR 0x0A] @ ''Explanation: foo''
        @ [CHR 0x0A] @ ''stray'' @ [CHR 0x0A] @ ''Answer: A'')
     = [''Q1. x'', ''A. y'', ''Explanation: foo'', ''stray'', ''Answer: A'']
   \<and> continues ''stray''"
  by code_simp

text \<open>
  Claim C10, amended: the lines that directly follow an option line, up to the first line
  that is an option line or starts with \<open>answer:\<close> or \<open>explanation:\<close>, are appended,
  in their order and each after a blank, to the text of that option, which begins as the
  option line after its letter, its period and the blanks that follow. One turn of the
  outer loop takes the option line and these lines; the option stays in the list of the
  options with this text, whatever follows. When the line that ends the run is not an
  option line, or the block ends there, the loop over the options ends at that line with
  this option as the last one: no later line of the block is appended to any option.
\<close>

theorem option_continuation:
  assumes "block_lines block = pre @ l # conts @ rest"
    and "truthy (re_match True option_start_re l)"
    and "list_all continues conts"
    and "rest = [] \<or> \<not> continues (hd rest)"
  shows "options_loop (block_lines block) (length pre) opts
         = options_loop (block_lines block) (length pre + 1 + length conts)
             (opts @ [(upper [hd l],
                       dropWhile isspace (drop 2 l) @ concat (map (\<lambda>x. '' '' @ x) conts))])
       \<and> (\<exists>idx' more. options_loop (block_lines block) (length pre) opts
             = Inr (idx', opts @ (upper [hd l],
                       dropWhile isspace (drop 2 l) @ concat (map (\<lambda>x. '' '' @ x) conts)) # more))
       \<and> (rest = [] \<or> \<not> truthy (re_match True option_start_re (hd rest)) \<longrightarrow>
            options_loop (block_lines block) (length pre) opts
              = Inr (length pre + 1 + length conts,
                     opts @ [(upper [hd l],
                       dropWhile isspace (drop 2 l) @ concat (map (\<lambda>x. '' '' @ x) conts))]))"
proof -
  let ?lines = "block_lines block"
  let ?O = "(upper [hd l], dropWhile isspace (drop 2 l) @ concat (map (\<lambda>x. '' '' @ x) conts))"
  let ?j = "length pre + 1 + length conts"
  from assms(1) have at: "length pre < length ?lines" "?lines ! length pre = l"
    by simp_all
  then have "l \<in> set ?lines"
    by (metis nth_mem)
  then have "CHR 0x0A \<notin> set l"
    by (rule block_lines_no_newline)
  from option_re_line [OF this assms(2)] obtain m where
    m: "re_match True option_re l = Some m" "group m 1 = [hd l]"
       "group m 2 = dropWhile isspace (drop 2 l)"
    by blast
  from assms(1) have l': "?lines = (pre @ [l]) @ conts @ rest"
    by simp
  have w: "wrap_loop ?lines (length pre + 1) (group m 2)
         = Inr (length pre + 1 + length conts, group m 2 @ concat (map (\<lambda>x. '' '' @ x) conts))"
    using wrap_loop_run [OF l' assms(3,4), of "group m 2"] by simp
  have w': "wrap_loop ?lines (Suc (length pre)) (dropWhile isspace (drop 2 l))
         = Inr (Suc (length pre + length conts),
                dropWhile isspace (drop 2 l) @ concat (map (\<lambda>x. '' '' @ x) conts))"
    using w by (simp add: m)
  have m1: "group m (Suc 0) = [hd l]"
    using m(2) by simp
  have turn: "options_loop ?lines (length pre) opts = options_loop ?lines ?j (opts @ [?O])"
    by (subst options_loop_step) (simp add: at assms(2) m(1,3) m1 w' blank_append)
  obtain idx' more where
    "options_loop ?lines ?j (opts @ [?O]) = Inr (idx', (opts @ [?O]) @ more)"
    using options_loop_extends by blast
  then have "options_loop ?lines (length pre) opts = Inr (idx', opts @ ?O # more)"
    unfolding turn by (simp add: blank_append)
  then have kept: "\<exists>idx' more. options_loop ?lines (length pre) opts = Inr (idx', opts @ ?O # more)"
    by blast
  have stop: "options_loop ?lines (length pre) opts = Inr (?j, opts @ [?O])"
    if "rest = [] \<or> \<not> truthy (re_match True option_start_re (hd rest))"
  proof (cases rest)
    case Nil
    with assms(1) have "\<not> ?j < length ?lines"
      by simp
    then have "options_loop ?lines ?j (opts @ [?O]) = Inr (?j, opts @ [?O])"
      by (subst options_loop_step) simp
    then show ?thesis
      unfolding turn .
  next
    case (Cons r rs)
    with assms(1) have "?lines ! ?j = r"
      by (simp add: nth_append)
    with that Cons have "\<not> truthy (re_match True option_start_re (?lines ! ?j))"
      by simp
    then have "options_loop ?lines ?j (opts @ [?O]) = Inr (?j, opts @ [?O])"
      by (subst options_loop_step) simp
    then show ?thesis
      unfolding turn .
  qed
  from turn kept stop show ?thesis
    by blast
qed

text \<open>
  Claim C10, amended, on a block whose option A is followed by one wrapped line and then
  by the answer line.
\<close>

theorem option_continuation_witness:
  "options_loop (block_lines (''Q1. x'' @ [CHR 0x0A] @ ''A. y'' @ [CHR 0x0A] @ ''more'' @ [CHR 0x0A] @ ''Answer: A'')) 1 []
     = Inr (3, [(''A'', ''y more'')])
   \<and> scan_lines (block_lines (''Q1. x'' @ [CHR 0x0A] @ ''A. y'' @ [CHR 0x0A] @ ''more'' @ [CHR 0x0A] @ ''Answer: A''))
     = Inr \<lparr>qnum = Some 1, question_text = ''x'', options = [(''A'', ''y more'')],
            answer_letter = Some ''A'', explanation = []\<rparr>"
proof -
  let ?block = "''Q1. x'' @ [CHR 0x0A] @ ''A. y'' @ [CHR 0x0A] @ ''more'' @ [CHR 0x0A] @ ''Answer: A''"
  have h1: "block_lines ?block = [''Q1. x''] @ ''A. y'' # [''more''] @ [''Answer: A'']"
    by code_simp
  have h2: "truthy (re_match True option_start_re ''A. y'')"
    by code_simp
  have h3: "list_all continues [''more'']"
    by code_simp
  have h4: "[''Answer: A''] = [] \<or> \<not> continues (hd [''Answer: A''])"
    by code_simp
  have h5: "[''Answer: A''] = [] \<or> \<not> truthy (re_match True option_start_re (hd [''Answer: A'']))"
    by code_simp
  have v: "(upper [hd ''A. y''], dropWhile isspace (drop 2 ''A. y'') @ concat (map (\<lambda>x. '' '' @ x) [''more'']))
             = (''A'', ''y more'')"
    by code_simp
  have sc: "scan_lines (block_lines ?block)
     = Inr \<lparr>qnum = Some 1, question_text = ''x'', options = [(''A'', ''y more'')],
            answer_letter = Some ''A'', explanation = []\<rparr>"
    by code_simp
  have n1: "length [''Q1. x''] = 1" by simp
  have n2: "1 + 1 + length [''more''] = 3" by simp
  from option_continuation [OF h1 h2 h3 h4, of "[]"] h5
  have "options_loop (block_lines ?block) (length [''Q1. x'']) []
      = Inr (length [''Q1. x''] + 1 + length [''more''],
             [] @ [(upper [hd ''A. y''], dropWhile isspace (drop 2 ''A. y'') @ concat (map (\<lambda>x. '' '' @ x) [''more'']))])"
    by blast
  then have "options_loop (block_lines ?block) 1 [] = Inr (3, [(''A'', ''y more'')])"
    by (simp only: n1 n2 v append_Nil)
  with sc show ?thesis
    by blast
qed

section \<open>Blocks that give no record\<close>

lemma question_re_number:
  assumes "ds \<noteq> []" and "list_all isdigit ds" and "CHR 0x0A \<notin> set rest"
  shows "\<exists>m. re_match True question_re (CHR ''Q'' # ds @ CHR ''.'' # rest) = Some m
              \<and> group m 1 = ds"
proof -
  let ?s = "ds @ CHR ''.'' # rest"
  let ?g = "Map.empty(1 \<mapsto> ds)"
  let ?tail = "Seqs [Group 2 (Star (Cls AnyChar)), Eol]"
  let ?after = "Seqs [Lit CHR ''.'', Star (Cls Space), Group 2 (Star (Cls AnyChar)), Eol]"
  let ?n = "length (takeWhile isspace rest)"
  let ?w = "dropWhile isspace rest"
  have nd: "\<not> isdigit CHR ''.''"
    by (simp add: isdigit_def)
  have tw: "takeWhile isdigit ?s = ds"
    using assms(2) nd by (simp add: list_all_iff takeWhile_append2)
  have dw: "dropWhile isdigit ?s = CHR ''.'' # rest"
    using assms(2) nd by (simp add: list_all_iff dropWhile_append2)
  have s: "?s \<noteq> []" "isdigit (hd ?s)"
    using assms(1,2) by (cases ds; simp)+
  from ms_digits_some [OF s, of True 1 "Suc 0" Map.empty] obtain more1 where
    g1: "ms True (Group 1 (Plus (Cls Digit))) (Suc 0, ?s, Map.empty)
           = (Suc 0 + length ds, CHR ''.'' # rest, ?g) # more1"
    unfolding tw dw by blast
  have "CHR 0x0A \<notin> set ?w"
    using assms(3) by (auto dest: set_dropWhileD)
  from rest_of_line [OF this, of True 2 "Suc (Suc (length ds)) + ?n" ?g] obtain more2 where
    tail: "ms True ?tail (Suc (Suc (length ds)) + ?n, ?w, ?g)
             = (Suc (Suc (length ds)) + ?n + length ?w, [], ?g(2 \<mapsto> ?w)) # more2"
    by blast
  have after_front: "ms True ?after (Suc 0 + length ds, CHR ''.'' # rest, ?g)
      = concat (map (ms True ?tail) (ms True (Star (Cls Space)) (Suc (Suc (length ds)), rest, ?g)))"
    by (simp del: ms.simps(6,7))
  have "\<exists>more3. ms True ?after (Suc 0 + length ds, CHR ''.'' # rest, ?g)
      = (Suc (Suc (length ds)) + ?n + length ?w, [], ?g(2 \<mapsto> ?w)) # more3"
    unfolding after_front ms_Star_Cls_Cons in_cls_Space using tail by (simp del: ms.simps)
  then obtain more3 where after: "ms True ?after (Suc 0 + length ds, CHR ''.'' # rest, ?g)
      = (Suc (Suc (length ds)) + ?n + length ?w, [], ?g(2 \<mapsto> ?w)) # more3"
    by blast
  have front: "ms True question_re (0, CHR ''Q'' # ?s, Map.empty)
      = concat (map (ms True ?after) (ms True (Group 1 (Plus (Cls Digit))) (Suc 0, ?s, Map.empty)))"
    unfolding question_re_def by (simp add: lit_eq_def del: ms.simps(6,7))
  have "\<exists>more4. ms True question_re (0, CHR ''Q'' # ?s, Map.empty)
      = (Suc (Suc (length ds)) + ?n + length ?w, [], ?g(2 \<mapsto> ?w)) # more4"
    unfolding front g1 using after by (simp del: ms.simps)
  then obtain more4 where "ms True question_re (0, CHR ''Q'' # ?s, Map.empty)
      = (Suc (Suc (length ds)) + ?n + length ?w, [], ?g(2 \<mapsto> ?w)) # more4"
    by blast
  then have "re_match True question_re (CHR ''Q'' # ?s)
      = Some (Suc (Suc (length ds)) + ?n + length ?w, [], ?g(2 \<mapsto> ?w))"
    by (simp add: re_match_def)
  then show ?thesis
    by (simp add: group_def)
qed

lemma split_chr_none: "sep \<notin> set s \<Longrightarrow> split_chr sep s = [s]"
  by (induction s) auto

lemma strip_id: "s \<noteq> [] \<Longrightarrow> \<not> isspace (hd s) \<Longrightarrow> \<not> isspace (last s) \<Longrightarrow> strip s = s"
proof -
  assume a: "s \<noteq> []" "\<not> isspace (hd s)" "\<not> isspace (last s)"
  then have 1: "dropWhile isspace s = s"
    by (cases s) simp_all
  from a have "rev s \<noteq> []" "\<not> isspace (hd (rev s))"
    by (simp_all add: hd_rev)
  then have "dropWhile isspace (rev s) = rev s"
    by (cases "rev s") simp_all
  with 1 show ?thesis
    by (simp add: strip_def)
qed

lemma block_lines_single:
  assumes "CHR 0x0A \<notin> set s" and "s \<noteq> []" and "\<not> isspace (hd s)" and "\<not> isspace (last s)"
  shows "block_lines s = [s]"
  using assms by (simp add: block_lines_def split_chr_none strip_id)

lemma long_question:
  assumes "ds \<noteq> []" and "list_all isdigit ds" and "int_max_str_digits < length ds"
    and "CHR 0x0A \<notin> set rest" and "rest \<noteq> []" and "\<not> isspace (last rest)"
  shows "block_lines (CHR ''Q'' # ds @ CHR ''.'' # rest) = [CHR ''Q'' # ds @ CHR ''.'' # rest]"
    and "\<not> block_ok (CHR ''Q'' # ds @ CHR ''.'' # rest)"
proof -
  let ?b = "CHR ''Q'' # ds @ CHR ''.'' # rest"
  have "CHR 0x0A \<notin> set ds"
    using assms(2) by (auto simp: list_all_iff isdigit_def)
  with assms(4) have "CHR 0x0A \<notin> set ?b"
    by simp
  moreover have "\<not> isspace (hd ?b)"
    by (simp add: isspace_def)
  moreover have "\<not> isspace (last ?b)"
    using assms(5,6) by simp
  ultimately show l: "block_lines ?b = [?b]"
    by (intro block_lines_single) simp_all
  from question_re_number [OF assms(1,2,4)] obtain m where
    "re_match True question_re ?b = Some m" "group m 1 = ds"
    by blast
  with assms(3) have "\<not> short_number ?b"
    by (simp add: short_number_def)
  with l show "\<not> block_ok ?b"
    by (simp add: block_ok_def)
qed

text \<open>
  Claim C7, as the specification states it: a block from which no option is consumed gives
  no record and raises no error, and the other blocks are not affected. The block below
  is one line, a question whose number has 4301 digits. No option is consumed from it,
  and \<open>int\<close> raises \<open>ValueError\<close> on the number: the parser of the block raises, and
  so does the loop over the blocks of a text that holds it between two others.
\<close>

theorem dropped_block_counterexample:
  "block_lines (''Q'' @ replicate 4301 CHR ''1'' @ ''. x'')
     = [''Q'' @ replicate 4301 CHR ''1'' @ ''. x'']
   \<and> options_loop [''Q'' @ replicate 4301 CHR ''1'' @ ''. x''] 1 [] = Inr (1, [])
   \<and> parse_block (''Q'' @ replicate 4301 CHR ''1'' @ ''. x'') ''L'' ''Other'' ''Unknown''
     = Inl ValueError
   \<and> blocks_loop [''Q1. u'', ''Q'' @ replicate 4301 CHR ''1'' @ ''. x'', ''Q3. v'']
       ''L'' ''Other'' ''Unknown'' [] = Inl ValueError"
proof -
  let ?b = "CHR ''Q'' # replicate 4301 CHR ''1'' @ CHR ''.'' # '' x''"
  have d: "replicate 4301 CHR ''1'' \<noteq> []" "list_all isdigit (replicate 4301 CHR ''1'')"
    "int_max_str_digits < length (replicate 4301 CHR ''1'')"
    by (simp_all add: list_all_iff isdigit_def int_max_str_digits_def)
  have r: "CHR 0x0A \<notin> set '' x''" "'' x'' \<noteq> []" "\<not> isspace (last '' x'')"
    by (simp_all add: isspace_def)
  have l: "block_lines ?b = [?b]" and b: "\<not> block_ok ?b"
    using long_question [OF d r] by blast+
  have o: "options_loop [?b] 1 [] = Inr (1, [])"
    by (subst options_loop_step) simp
  have p: "parse_block ?b ''L'' ''Other'' ''Unknown'' = Inl ValueError"
    using b by (rule parse_block_long)
  from b have "\<not> list_all block_ok [''Q1. u'', ?b, ''Q3. v'']"
    by simp
  then have "blocks_loop [''Q1. u'', ?b, ''Q3. v''] ''L'' ''Other'' ''Unknown'' [] = Inl ValueError"
    by (rule blocks_loop_long)
  with l o p show ?thesis
    by simp
qed


text \<open>
  Claim C7, amended: a block whose first line is read without error (it carries no number,
  or a number of at most \<open>int_max_str_digits\<close> digits; \<open>question_line_short\<close> and
  \<open>question_line_long\<close>), and from which no option is consumed, or in which no line
  from the place where the options ended on matches the answer pattern, gives no record
  and no error, and the other blocks of the text give what they give without it. The
  block may also have no lines at all.
\<close>

theorem dropped_block:
  assumes "block_lines block = [] \<or>
     (question_line (block_lines block ! 0) = Inr (qn, qt)
      \<and> question_loop (block_lines block) 1 qt = Inr (idx, qt')
      \<and> options_loop (block_lines block) idx [] = Inr (idx', opts)
      \<and> (opts = [] \<or> list_all (\<lambda>i. re_match True answer_re (block_lines block ! i) = None)
                          [idx'..<length (block_lines block)]))"
  shows "parse_block block source_name module' difficulty' = Inr None
       \<and> blocks_loop (bs1 @ block # bs2) source_name module' difficulty' questions
           = blocks_loop (bs1 @ bs2) source_name module' difficulty' questions"
proof -
  let ?lines = "block_lines block"
  have pb: "parse_block block source_name module' difficulty' = Inr None"
  proof (cases "?lines = []")
    case True
    then show ?thesis by (simp add: parse_block_def)
  next
    case False
    with assms have q: "question_line (?lines ! 0) = Inr (qn, qt)"
      and ql: "question_loop ?lines 1 qt = Inr (idx, qt')"
      and ol: "options_loop ?lines idx [] = Inr (idx', opts)"
      and d: "opts = [] \<or> list_all (\<lambda>i. re_match True answer_re (?lines ! i) = None)
                          [idx'..<length ?lines]"
      by simp_all
    obtain al idx'' where al: "answer_loop ?lines idx' [idx'..<length ?lines] = Inr (al, idx'')"
      using answer_loop_total [OF upt_in_range] by (metis surj_pair)
    obtain ex b where el: "explanation_loop ?lines [idx''..<length ?lines] ([], False) = Inr (ex, b)"
      using explanation_loop_total [OF upt_in_range] by (metis surj_pair)
    have sc: "scan_lines ?lines = Inr \<lparr>qnum = qn, question_text = qt', options = opts,
           answer_letter = al, explanation = ex\<rparr>"
      using False q ql ol al el by (rule scan_lines_stages)
    have "opts = [] \<or> al = None"
    proof (cases "opts = []")
      case True
      then show ?thesis ..
    next
      case False
      with d have "list_all (\<lambda>i. i < length ?lines \<and> re_match True answer_re (?lines ! i) = None)
                          [idx'..<length ?lines]"
        by (simp add: list_all_iff)
      then have "answer_loop ?lines idx' [idx'..<length ?lines] = Inr (None, idx')"
        by (rule answer_loop_None)
      with al show ?thesis by simp
    qed
    then have "malformed \<lparr>qnum = qn, question_text = qt', options = opts,
           answer_letter = al, explanation = ex\<rparr>"
      by (auto simp: malformed_def)
    with False sc show ?thesis
      by (simp add: parse_block_def)
  qed
  then have "blocks_loop (bs1 @ block # bs2) source_name module' difficulty' questions
           = blocks_loop (bs1 @ bs2) source_name module' difficulty' questions"
    by (rule blocks_loop_drop)
  with pb show ?thesis ..
qed

text \<open>Claim C7 on a block with one option and no answer line, between two other blocks.\<close>

theorem dropped_block_witness:
  "parse_block (''Q1. x'' @ [CHR 0x0A] @ ''A. y'' @ [CHR 0x0A] @ ''Explanation: z'')
       ''L'' ''Other'' ''Unknown'' = Inr None
   \<and> blocks_loop ([''Q2. u''] @ (''Q1. x'' @ [CHR 0x0A] @ ''A. y'' @ [CHR 0x0A] @ ''Explanation: z'') # [''Q3. v''])
        ''L'' ''Other'' ''Unknown'' []
     = blocks_loop ([''Q2. u''] @ [''Q3. v'']) ''L'' ''Other'' ''Unknown'' []"
proof -
  let ?block = "''Q1. x'' @ [CHR 0x0A] @ ''A. y'' @ [CHR 0x0A] @ ''Explanation: z''"
  have 1: "question_line (block_lines ?block ! 0) = Inr (Some 1, ''x'')"
    by code_simp
  have 2: "question_loop (block_lines ?block) 1 ''x'' = Inr (1, ''x'')"
    by code_simp
  have 3: "options_loop (block_lines ?block) 1 [] = Inr (2, [(''A'', ''y'')])"
    by code_simp
  have 4: "list_all (\<lambda>i. re_match True answer_re (block_lines ?block ! i) = None)
             [2..<length (block_lines ?block)]"
    by code_simp
  have h: "block_lines ?block = [] \<or>
     (question_line (block_lines ?block ! 0) = Inr (Some 1, ''x'')
      \<and> question_loop (block_lines ?block) 1 ''x'' = Inr (1, ''x'')
      \<and> options_loop (block_lines ?block) 1 [] = Inr (2, [(''A'', ''y'')])
      \<and> ([(''A'', ''y'')] = [] \<or> list_all (\<lambda>i. re_match True answer_re (block_lines ?block ! i) = None)
                          [2..<length (block_lines ?block)]))"
    using 1 2 3 4 by blast
  show ?thesis
    by (rule dropped_block [OF h])
qed

section \<open>The parser as a whole\<close>

lemma long_label: "\<not> label_ok (kw @ ws @ replicate 4301 c)"
  if "lower kw = ''md'' \<or> lower kw = ''mod''" and "list_all isspace ws" and "isdigit c"
    and "c \<noteq> CHR ''0''"
proof -
  have d: "replicate 4301 c \<noteq> []" "list_all isdigit (replicate 4301 c)"
    using that(3) by (simp_all add: list_all_iff)
  have r: "([]::string) = [] \<or> \<not> isdigit (hd [])"
    by simp
  from find_pattern_start [OF that(1,2) d r]
  have f: "find_pattern (kw @ ws @ replicate 4301 c) = Some (replicate 4301 c)"
    by simp
  have "hd (replicate 4301 c) = c"
    by (rule hd_replicate) simp
  with that(4) have "captured (replicate 4301 c) = replicate 4301 c"
    by (simp add: captured_def)
  then show ?thesis
    by (simp add: label_ok_def f int_max_str_digits_def)
qed

text \<open>
  Claim C8, as the specification states it: for the empty text, and any label, the parser
  returns the empty list of records. The module of the label is computed before the text
  is looked at; with a label in which the module pattern holds 4301 digits, \<open>int\<close>
  raises \<open>ValueError\<close> there.
\<close>

theorem parse_quiz_text_empty_counterexample:
  "parse_quiz_text [] (''MD'' @ replicate 4301 CHR ''1'') = Inl ValueError"
proof -
  have "\<not> label_ok (''MD'' @ [] @ replicate 4301 CHR ''1'')"
    by (rule long_label)
       (simp_all add: lower_def lower_chr_def char_of_def bit_Suc_0_iff isdigit_def)
  then have "\<not> numbers_short [] (''MD'' @ replicate 4301 CHR ''1'')"
    by (simp add: numbers_short_def)
  then show ?thesis
    by (rule parse_quiz_text_long)
qed

text \<open>
  Claim C8, amended: for the empty text the parser returns the empty list of records for
  every label in which the module pattern is not found or holds at most
  \<open>int_max_str_digits\<close> digits in its group; for any other label \<open>int\<close> raises
  \<open>ValueError\<close>.
\<close>

theorem parse_quiz_text_empty:
  "parse_quiz_text [] source_name = (if label_ok source_name then Inr [] else Inl ValueError)"
proof (cases "label_ok source_name")
  case True
  have "replace [CHR 0x0D, CHR 0x0A] [CHR 0x0A] [] = []"
    by (subst replace.simps) simp
  with True show ?thesis
    by (simp add: parse_quiz_text_def strip_def extract_module_ok)
next
  case False
  then show ?thesis
    by (simp add: parse_quiz_text_def extract_module_long)
qed

text \<open>Claim C8, amended, on the label of an ordinary file.\<close>

theorem parse_quiz_text_empty_witness: "parse_quiz_text [] ''MD3 TB Hard Quiz'' = Inr []"
proof -
  have "label_ok ''MD3 TB Hard Quiz''"
    by code_simp
  with parse_quiz_text_empty [of "''MD3 TB Hard Quiz''"] show ?thesis
    by simp
qed

text \<open>
  Claim C9, as stated: for every text and every label the parser returns a list of
  records and no branch raises. With a label in which the module pattern holds 4301
  digits, \<open>int\<close> raises \<open>ValueError\<close>, whatever the text.
\<close>

theorem parse_quiz_text_returns_counterexample:
  "parse_quiz_text (''Q1. x'' @ [CHR 0x0A] @ ''A. y'' @ [CHR 0x0A] @ ''Answer: A'')
     (''Mod '' @ replicate 4301 CHR ''9'') = Inl ValueError"
proof -
  have "\<not> label_ok (''Mod'' @ '' '' @ replicate 4301 CHR ''9'')"
    by (rule long_label)
       (simp_all add: lower_def lower_chr_def char_of_def bit_Suc_0_iff isdigit_def isspace_def)
  then have "\<not> numbers_short (''Q1. x'' @ [CHR 0x0A] @ ''A. y'' @ [CHR 0x0A] @ ''Answer: A'')
                (''Mod '' @ replicate 4301 CHR ''9'')"
    by (simp add: numbers_short_def)
  then show ?thesis
    by (rule parse_quiz_text_long)
qed

text \<open>
  Claim C9, amended: for every text and every label the parser comes to an end. It
  returns a list of records exactly when the numbers that it converts with \<open>int\<close> are
  within the bound of the interpreter: the digits that the module pattern captures in
  the label and the number of the first line of each block, each of at most
  \<open>int_max_str_digits\<close> digits. Otherwise it raises \<open>ValueError\<close>. It never raises
  \<open>IndexError\<close>: in the model every read of a line is \<open>getitem\<close>, which raises out of
  range. The loops are total functions: each was accepted with a measure that the number
  of lines bounds.
\<close>

theorem parse_quiz_text_returns:
  "(numbers_short text' source_name \<longrightarrow> (\<exists>rs. parse_quiz_text text' source_name = Inr rs))
   \<and> (\<not> numbers_short text' source_name \<longrightarrow> parse_quiz_text text' source_name = Inl ValueError)
   \<and> parse_quiz_text text' source_name \<noteq> Inl IndexError"
proof (cases "numbers_short text' source_name")
  case True
  then obtain rs where "parse_quiz_text text' source_name = Inr rs"
    using parse_quiz_text_ok by blast
  with True show ?thesis
    by simp
next
  case False
  then have "parse_quiz_text text' source_name = Inl ValueError"
    by (rule parse_quiz_text_long)
  with False show ?thesis
    by simp
qed

text \<open>Claim C9, amended, on a text of two blocks and the label of an ordinary file.\<close>

theorem parse_quiz_text_returns_witness:
  "numbers_short (''Q1. x'' @ [CHR 0x0A] @ ''A. y'' @ [CHR 0x0A] @ ''Answer: A''
       @ [CHR 0x0A, CHR 0x0A] @ ''Q2. u'') ''MD3 TB Hard Quiz''
   \<and> (\<exists>rs. parse_quiz_text (''Q1. x'' @ [CHR 0x0A] @ ''A. y'' @ [CHR 0x0A] @ ''Answer: A''
       @ [CHR 0x0A, CHR 0x0A] @ ''Q2. u'') ''MD3 TB Hard Quiz'' = Inr rs)"
proof -
  have h: "numbers_short (''Q1. x'' @ [CHR 0x0A] @ ''A. y'' @ [CHR 0x0A] @ ''Answer: A''
       @ [CHR 0x0A, CHR 0x0A] @ ''Q2. u'') ''MD3 TB Hard Quiz''"
    by code_simp
  with parse_quiz_text_returns [of "''Q1. x'' @ [CHR 0x0A] @ ''A. y'' @ [CHR 0x0A] @ ''Answer: A''
       @ [CHR 0x0A, CHR 0x0A] @ ''Q2. u''" "''MD3 TB Hard Quiz''"]
  show ?thesis
    by blast
qed

end
